theory Spec2Isabelle
  imports Main "HOL-Library.Word"
begin

section \<open>The dense matrix package \<open>mat\<close>\<close>

text \<open>
  A shallow embedding of \<^verbatim>\<open>mat.go\<close>. Conventions of the embedding:

  \<^item> Go's \<^verbatim>\<open>int\<close> is the 64-bit two's-complement integer. A dimension is an \<open>int\<close> of HOL.
    Where the code computes the size of the buffer of a new matrix as a product of dimensions,
    or a dimension as a sum of dimensions (\<open>New\<close>, \<open>FromSlice\<close>, \<open>FromFunc\<close>,
    \<open>ConcatenateCols\<close>, \<open>ConcatenateRows\<close>), the result wraps around (\<open>mul64\<close>, \<open>add64\<close>).
    The offsets into the buffer of a matrix, and the sizes that \<open>SliceCols\<close> and \<open>SliceRows\<close>
    compute from a matrix and a range that has passed their check, are computed exactly: in
    a matrix whose buffer has \<open>rows * cols\<close> cells they are at most the length of the buffer,
    which is an \<^verbatim>\<open>int\<close>. When the size of the result of a product has wrapped around, the
    offset equal to the length of its buffer, an \<^verbatim>\<open>int\<close>, is among those that the loops
    compute, and the write at it panics. That a buffer fits in memory is not modelled.
  \<^item> A \<^verbatim>\<open>float64\<close> is its IEEE-754 binary64 bit pattern, a 64-bit word. The comparison
    \<^verbatim>\<open>!=\<close> is defined on the bits. The arithmetic \<^verbatim>\<open>+\<close>, \<^verbatim>\<open>-\<close>, \<^verbatim>\<open>*\<close> on
    \<^verbatim>\<open>float64\<close> is not interpreted: every operation that uses it takes it as a parameter
    (\<open>fadd\<close>, \<open>fsub\<close>, \<open>fmul\<close>), and no law about it is assumed.
  \<^item> A slice is the list of its elements. Index expressions and slice expressions are
    checked against the length. (Go checks a slice expression against the capacity; the two
    differ only for bounds beyond the length, which no operation reaches on a matrix whose
    buffer has \<open>rows * cols\<close> cells.)
  \<^item> Every operation but \<open>Apply\<close> writes only to a buffer that it has allocated itself, so
    a matrix is modelled by its value, the dimensions and the list of the cells, and an
    operation by a function on such values. \<open>Apply\<close> writes to the buffer of its receiver;
    it is modelled, with its siblings, on a store of buffers in the last part of this section.
  \<^item> A \<^verbatim>\<open>panic\<close> is a value \<open>Inl e\<close>. The package panics with messages; the constructor of
    \<open>error\<close> names the kind, and the numbers a message reports are its arguments. A panic
    of the Go runtime (index out of range, slice bounds out of range, negative length
    given to \<^verbatim>\<open>make\<close>) is \<open>RuntimePanic\<close>.
\<close>

type_synonym float64 = "64 word"

datatype error =
    DimensionMismatch "int list"
      \<comment> \<open>"missmatched dimensions and data", "can't concatenate ... different number of",
          "can't compute product of matrices with dimensions", "can't compute dot application"\<close>
  | IndexOutOfRange int int
      \<comment> \<open>"element (i, j) is out of range"\<close>
  | InvalidRange
      \<comment> \<open>"bad row numbers"\<close>
  | EmptyInput
      \<comment> \<open>"can't concatenate an empty list of matrices"\<close>
  | RuntimePanic

record Matrix =
  rows :: int
  cols :: int
  data :: "float64 list"

subsection \<open>The arithmetic of \<^verbatim>\<open>int\<close>\<close>

text \<open>The value that 64 bits hold of an integer, and the product and the sum of two
  \<^verbatim>\<open>int\<close>s.\<close>

definition wrap64 :: "int \<Rightarrow> int" where
  "wrap64 x = (x + 2 ^ 63) mod 2 ^ 64 - 2 ^ 63"

definition mul64 :: "int \<Rightarrow> int \<Rightarrow> int" where
  "mul64 x y = wrap64 (x * y)"

definition add64 :: "int \<Rightarrow> int \<Rightarrow> int" where
  "add64 x y = wrap64 (x + y)"

text \<open>The matrices that are values of the Go type: the dimensions are \<^verbatim>\<open>int\<close>s, and so is
  the length of the buffer.\<close>

definition representable :: "Matrix \<Rightarrow> bool" where
  "representable m =
     (- (2 ^ 63) \<le> rows m \<and> rows m < 2 ^ 63 \<and> - (2 ^ 63) \<le> cols m \<and> cols m < 2 ^ 63
      \<and> int (length (data m)) < 2 ^ 63)"

subsection \<open>Sequencing, loops and slices\<close>

definition seq :: "error + 'a \<Rightarrow> ('a \<Rightarrow> error + 'b) \<Rightarrow> error + 'b" where
  "seq m f = (case m of Inl e \<Rightarrow> Inl e | Inr x \<Rightarrow> f x)"

text \<open>\<^verbatim>\<open>for _, x := range xs { body }\<close> on a state \<open>s\<close>; a panic in the body leaves the loop.\<close>

fun for_list :: "('x \<Rightarrow> 's \<Rightarrow> error + 's) \<Rightarrow> 'x list \<Rightarrow> 's \<Rightarrow> error + 's" where
  "for_list body [] s = Inr s"
| "for_list body (x # xs) s = seq (body x s) (for_list body xs)"

text \<open>\<^verbatim>\<open>for i := 0; i < n; i++ { body }\<close>.\<close>

definition for_range :: "int \<Rightarrow> (int \<Rightarrow> 's \<Rightarrow> error + 's) \<Rightarrow> 's \<Rightarrow> error + 's" where
  "for_range n body s = for_list body (map int [0..<nat n]) s"

text \<open>\<^verbatim>\<open>make([]float64, n)\<close> and \<^verbatim>\<open>make([]float64, 0, n)\<close>.\<close>

definition make_len :: "int \<Rightarrow> error + float64 list" where
  "make_len n = (if n < 0 then Inl RuntimePanic else Inr (replicate (nat n) 0))"

definition make_cap :: "int \<Rightarrow> error + float64 list" where
  "make_cap n = (if n < 0 then Inl RuntimePanic else Inr [])"

text \<open>\<^verbatim>\<open>xs[k]\<close>, \<^verbatim>\<open>xs[k] = x\<close>, \<^verbatim>\<open>xs[lo:hi]\<close> and \<^verbatim>\<open>copy(dst, src)\<close>.\<close>

definition index :: "float64 list \<Rightarrow> int \<Rightarrow> error + float64" where
  "index xs k = (if 0 \<le> k \<and> k < int (length xs) then Inr (xs ! nat k) else Inl RuntimePanic)"

definition assign :: "float64 list \<Rightarrow> int \<Rightarrow> float64 \<Rightarrow> error + float64 list" where
  "assign xs k x = (if 0 \<le> k \<and> k < int (length xs) then Inr (xs[nat k := x]) else Inl RuntimePanic)"

definition slice :: "float64 list \<Rightarrow> int \<Rightarrow> int \<Rightarrow> error + float64 list" where
  "slice xs lo hi =
     (if 0 \<le> lo \<and> lo \<le> hi \<and> hi \<le> int (length xs)
      then Inr (take (nat (hi - lo)) (drop (nat lo) xs)) else Inl RuntimePanic)"

definition copy :: "float64 list \<Rightarrow> float64 list \<Rightarrow> float64 list" where
  "copy dst src = (let n = min (length dst) (length src) in take n src @ drop n dst)"

subsection \<open>Representation and accessors\<close>

definition New :: "int \<Rightarrow> int \<Rightarrow> error + Matrix" where
  "New r c = seq (make_len (mul64 r c)) (\<lambda>d. Inr \<lparr>rows = r, cols = c, data = d\<rparr>)"

definition FromSlice :: "int \<Rightarrow> int \<Rightarrow> float64 list \<Rightarrow> error + Matrix" where
  "FromSlice r c d =
     (if int (length d) \<noteq> mul64 r c then Inl (DimensionMismatch [r, c, int (length d)])
      else seq (make_len (int (length d))) (\<lambda>c'. Inr \<lparr>rows = r, cols = c, data = copy c' d\<rparr>))"

definition ToSlice :: "Matrix \<Rightarrow> float64 list" where
  "ToSlice m = data m"

definition Rows :: "Matrix \<Rightarrow> int" where
  "Rows m = rows m"

definition Cols :: "Matrix \<Rightarrow> int" where
  "Cols m = cols m"

definition checkPos :: "Matrix \<Rightarrow> int \<Rightarrow> int \<Rightarrow> error + unit" where
  "checkPos m i j =
     (if i < 0 \<or> i \<ge> rows m \<or> j < 0 \<or> j \<ge> cols m then Inl (IndexOutOfRange i j) else Inr ())"

definition at :: "Matrix \<Rightarrow> int \<Rightarrow> int \<Rightarrow> error + float64" where
  "at m i j = index (data m) (cols m * i + j)"

definition At :: "Matrix \<Rightarrow> int \<Rightarrow> int \<Rightarrow> error + float64" where
  "At m i j = seq (checkPos m i j) (\<lambda>_. at m i j)"

definition set' :: "Matrix \<Rightarrow> int \<Rightarrow> int \<Rightarrow> float64 \<Rightarrow> error + Matrix" where
  "set' m i j x = seq (assign (data m) (cols m * i + j) x) (\<lambda>d. Inr (m\<lparr>data := d\<rparr>))"

definition FromFunc :: "int \<Rightarrow> int \<Rightarrow> (int \<Rightarrow> int \<Rightarrow> float64) \<Rightarrow> error + Matrix" where
  "FromFunc r c f =
     seq (make_len (mul64 r c)) (\<lambda>d.
       for_range r (\<lambda>i. for_range c (\<lambda>j m. set' m i j (f i j)))
         \<lparr>rows = r, cols = c, data = d\<rparr>)"

definition Clone :: "Matrix \<Rightarrow> error + Matrix" where
  "Clone m = seq (New (rows m) (cols m)) (\<lambda>c. Inr (c\<lparr>data := copy (data c) (data m)\<rparr>))"

definition Set :: "Matrix \<Rightarrow> int \<Rightarrow> int \<Rightarrow> float64 \<Rightarrow> error + Matrix" where
  "Set m i j x = seq (checkPos m i j) (\<lambda>_. seq (Clone m) (\<lambda>r. set' r i j x))"

subsection \<open>Structural operations\<close>

text \<open>\<^verbatim>\<open>for i, v := range r.data { r.data[i] = f(v) }\<close>: the length is read once, the
  element at each step.\<close>

definition Map :: "(float64 \<Rightarrow> float64) \<Rightarrow> Matrix \<Rightarrow> error + Matrix" where
  "Map f m =
     seq (Clone m) (\<lambda>r.
       for_range (int (length (data r)))
         (\<lambda>i r. seq (index (data r) i) (\<lambda>v.
                 seq (assign (data r) i (f v)) (\<lambda>d. Inr (r\<lparr>data := d\<rparr>)))) r)"

definition Scale :: "(float64 \<Rightarrow> float64 \<Rightarrow> float64) \<Rightarrow> Matrix \<Rightarrow> float64 \<Rightarrow> error + Matrix" where
  "Scale fmul m x = Map (\<lambda>v. fmul x v) m"

definition AddScalar :: "(float64 \<Rightarrow> float64 \<Rightarrow> float64) \<Rightarrow> Matrix \<Rightarrow> float64 \<Rightarrow> error + Matrix" where
  "AddScalar fadd m x = Map (\<lambda>v. fadd x v) m"

definition ConcatenateCols :: "Matrix list \<Rightarrow> error + Matrix" where
  "ConcatenateCols ms =
     (case ms of
        [] \<Rightarrow> Inl EmptyInput
      | m0 # _ \<Rightarrow>
          seq (for_list (\<lambda>m c. if Rows m0 \<noteq> Rows m then Inl (DimensionMismatch [])
                                else Inr (add64 c (Cols m))) ms 0) (\<lambda>c.
          seq (make_cap (mul64 (Rows m0) c)) (\<lambda>d0.
          seq (for_range (Rows m0) (\<lambda>i.
                 for_list (\<lambda>m d. seq (slice (data m) (i * cols m) ((i + 1) * cols m))
                                       (\<lambda>s. Inr (d @ s))) ms) d0) (\<lambda>d.
          Inr \<lparr>rows = Rows m0, cols = c, data = d\<rparr>))))"

definition ConcatenateRows :: "Matrix list \<Rightarrow> error + Matrix" where
  "ConcatenateRows ms =
     (case ms of
        [] \<Rightarrow> Inl EmptyInput
      | m0 # _ \<Rightarrow>
          seq (for_list (\<lambda>m r. if Cols m0 \<noteq> Cols m then Inl (DimensionMismatch [])
                                else Inr (add64 r (Rows m))) ms 0) (\<lambda>r.
          seq (make_cap (mul64 r (Cols m0))) (\<lambda>d0.
          seq (for_list (\<lambda>m d. Inr (d @ data m)) ms d0) (\<lambda>d.
          Inr \<lparr>rows = r, cols = Cols m0, data = d\<rparr>))))"

definition SliceCols :: "Matrix \<Rightarrow> int \<Rightarrow> int \<Rightarrow> error + Matrix" where
  "SliceCols m from to =
     (if from < 0 \<or> to > cols m \<or> to < from then Inl InvalidRange
      else seq (make_cap (rows m * (to - from))) (\<lambda>d0.
           seq (for_range (rows m) (\<lambda>i d.
                  seq (slice (data m) (i * cols m + from) (i * cols m + to))
                      (\<lambda>s. Inr (d @ s))) d0) (\<lambda>d.
           Inr \<lparr>rows = rows m, cols = to - from, data = d\<rparr>)))"

definition SliceRows :: "Matrix \<Rightarrow> int \<Rightarrow> int \<Rightarrow> error + Matrix" where
  "SliceRows m from to =
     (if from < 0 \<or> to > rows m \<or> to < from then Inl InvalidRange
      else seq (make_len (cols m * (to - from))) (\<lambda>d.
           seq (slice (data m) (from * cols m) (to * cols m)) (\<lambda>s.
           Inr \<lparr>rows = to - from, cols = cols m, data = copy d s\<rparr>)))"

text \<open>\<open>FilterRows\<close> threads the pair of the row counter and the buffer built so far
  (\<^verbatim>\<open>var data []float64\<close> starts empty).\<close>

definition FilterRows :: "Matrix \<Rightarrow> (int \<Rightarrow> bool) \<Rightarrow> error + Matrix" where
  "FilterRows m f =
     seq (for_range (rows m) (\<lambda>i (r, d).
            if f i then seq (slice (data m) (i * Cols m) ((i + 1) * cols m))
                            (\<lambda>s. Inr (r + 1, d @ s))
            else Inr (r, d)) (0, [])) (\<lambda>(r, d).
     Inr \<lparr>rows = r, cols = Cols m, data = d\<rparr>)"

definition T :: "Matrix \<Rightarrow> error + Matrix" where
  "T m =
     seq (make_len (int (length (data m)))) (\<lambda>d.
       for_range (rows m) (\<lambda>i.
         for_range (cols m) (\<lambda>j t. seq (at m i j) (\<lambda>v. set' t j i v)))
         \<lparr>rows = cols m, cols = rows m, data = d\<rparr>)"

subsection \<open>Equality and element-wise algebra\<close>

text \<open>
  IEEE-754 binary64 on the bit pattern: bit 63 is the sign, bits 62..52 the exponent,
  bits 51..0 the fraction. A NaN has all exponent bits set and a non-zero fraction, that
  is, its magnitude bits exceed those of infinity. Go's \<^verbatim>\<open>==\<close> on \<^verbatim>\<open>float64\<close> is the IEEE
  comparison: a NaN is equal to nothing, \<open>+0\<close> equals \<open>-0\<close>, and otherwise the values
  are equal when the bits are.
\<close>

definition magnitude :: "float64 \<Rightarrow> float64" where
  "magnitude x = and x 0x7FFFFFFFFFFFFFFF"

definition isNaN :: "float64 \<Rightarrow> bool" where
  "isNaN x = (magnitude x > 0x7FF0000000000000)"

definition float_eq :: "float64 \<Rightarrow> float64 \<Rightarrow> bool" where
  "float_eq x y = (\<not> isNaN x \<and> \<not> isNaN y \<and> (x = y \<or> (magnitude x = 0 \<and> magnitude y = 0)))"

text \<open>The loop of \<open>Equals\<close>, from index \<open>i\<close> on: \<^verbatim>\<open>if v != b.data[i] { return false }\<close>.\<close>

fun Equals_loop :: "float64 list \<Rightarrow> float64 list \<Rightarrow> int \<Rightarrow> error + bool" where
  "Equals_loop [] bd i = Inr True"
| "Equals_loop (v # vs) bd i =
     seq (index bd i) (\<lambda>w. if \<not> float_eq v w then Inr False else Equals_loop vs bd (i + 1))"

definition Equals :: "Matrix \<Rightarrow> Matrix \<Rightarrow> error + bool" where
  "Equals a b =
     (if cols a \<noteq> cols b \<or> rows a \<noteq> rows b then Inr False
      else Equals_loop (data a) (data b) 0)"

definition dotApply :: "(float64 \<Rightarrow> float64 \<Rightarrow> float64) \<Rightarrow> Matrix \<Rightarrow> Matrix \<Rightarrow> error + Matrix" where
  "dotApply f a b =
     (if cols a \<noteq> cols b \<or> rows a \<noteq> rows b
      then Inl (DimensionMismatch [rows a, cols a, rows b, cols b])
      else seq (New (rows a) (cols a)) (\<lambda>c.
           for_range (rows a) (\<lambda>i.
             for_range (cols b) (\<lambda>j c.
               seq (at a i j) (\<lambda>x. seq (at b i j) (\<lambda>y. set' c i j (f x y))))) c))"

definition Dot :: "(float64 \<Rightarrow> float64 \<Rightarrow> float64) \<Rightarrow> Matrix \<Rightarrow> Matrix \<Rightarrow> error + Matrix" where
  "Dot fmul a b = dotApply (\<lambda>x y. fmul x y) a b"

definition Plus :: "(float64 \<Rightarrow> float64 \<Rightarrow> float64) \<Rightarrow> Matrix \<Rightarrow> Matrix \<Rightarrow> error + Matrix" where
  "Plus fadd a b = dotApply (\<lambda>x y. fadd x y) a b"

definition Minus :: "(float64 \<Rightarrow> float64 \<Rightarrow> float64) \<Rightarrow> Matrix \<Rightarrow> Matrix \<Rightarrow> error + Matrix" where
  "Minus fsub a b = dotApply (\<lambda>x y. fsub x y) a b"

subsection \<open>The sequential product\<close>

text \<open>The innermost loop, the same text in \<open>Product\<close> and in \<open>ParallelProduct\<close>:
  \<^verbatim>\<open>p := 0.0; for k := 0; k < a.cols; k++ { p += a.at(i, k) * b.at(k, j) }\<close>.\<close>

definition inner :: "(float64 \<Rightarrow> float64 \<Rightarrow> float64) \<Rightarrow> (float64 \<Rightarrow> float64 \<Rightarrow> float64) \<Rightarrow>
    Matrix \<Rightarrow> Matrix \<Rightarrow> int \<Rightarrow> int \<Rightarrow> error + float64" where
  "inner fadd fmul a b i j =
     for_range (cols a) (\<lambda>k p. seq (at a i k) (\<lambda>x. seq (at b k j) (\<lambda>y.
       Inr (fadd p (fmul x y))))) 0"

definition Product :: "(float64 \<Rightarrow> float64 \<Rightarrow> float64) \<Rightarrow> (float64 \<Rightarrow> float64 \<Rightarrow> float64) \<Rightarrow>
    Matrix \<Rightarrow> Matrix \<Rightarrow> error + Matrix" where
  "Product fadd fmul a b =
     (if cols a \<noteq> rows b then Inl (DimensionMismatch [rows a, cols a, rows b, cols b])
      else seq (New (rows a) (cols b)) (\<lambda>c.
           for_range (rows a) (\<lambda>i.
             for_range (cols b) (\<lambda>j c.
               seq (inner fadd fmul a b i j) (\<lambda>p. set' c i j p))) c))"

subsection \<open>The parallel product\<close>

text \<open>
  \<open>ParallelProduct\<close> starts one goroutine per row \<open>i\<close> of the result, which runs
  \<^verbatim>\<open>for j := 0; j < b.cols; j++ { ...; c.set(i, j, p) }\<close>, and waits for all of them. The
  goroutines read \<open>a\<close> and \<open>b\<close> and write \<open>c\<close>; what varies between executions is the order in
  which their iterations take place. A state holds the shared result and, for every row, the
  column its goroutine has reached. \<open>row_task_step i\<close> is one iteration of the loop of
  goroutine \<open>i\<close>; a goroutine that has finished (or does not exist) takes no step.

  The scheduler is a parameter: \<open>sched\<close> lists the goroutines in the order in which they take
  their steps. \<^verbatim>\<open>wg.Wait()\<close> returns when every goroutine has finished: whatever has not run
  yet after \<open>sched\<close> runs then (\<open>wait_all\<close>), so every interleaving of the iterations is the
  execution of some \<open>sched\<close>. A panic in a goroutine ends the program.
\<close>

record par_state =
  out :: Matrix
  next_col :: "int list"

definition row_task_step :: "(float64 \<Rightarrow> float64 \<Rightarrow> float64) \<Rightarrow> (float64 \<Rightarrow> float64 \<Rightarrow> float64) \<Rightarrow>
    Matrix \<Rightarrow> Matrix \<Rightarrow> nat \<Rightarrow> par_state \<Rightarrow> error + par_state" where
  "row_task_step fadd fmul a b i st =
     (if i < length (next_col st) \<and> next_col st ! i < cols b
      then seq (inner fadd fmul a b (int i) (next_col st ! i)) (\<lambda>p.
           seq (set' (out st) (int i) (next_col st ! i) p) (\<lambda>c.
           Inr \<lparr>out = c, next_col = (next_col st)[i := next_col st ! i + 1]\<rparr>))
      else Inr st)"

definition wait_all :: "Matrix \<Rightarrow> Matrix \<Rightarrow> nat list" where
  "wait_all a b = concat (map (\<lambda>i. replicate (nat (cols b)) i) [0..<nat (rows a)])"

definition ParallelProduct :: "(float64 \<Rightarrow> float64 \<Rightarrow> float64) \<Rightarrow> (float64 \<Rightarrow> float64 \<Rightarrow> float64) \<Rightarrow>
    nat list \<Rightarrow> Matrix \<Rightarrow> Matrix \<Rightarrow> error + Matrix" where
  "ParallelProduct fadd fmul sched a b =
     (if cols a \<noteq> rows b then Inl (DimensionMismatch [rows a, cols a, rows b, cols b])
      else seq (New (rows a) (cols b)) (\<lambda>c.
           seq (for_list (row_task_step fadd fmul a b) (sched @ wait_all a b)
                  \<lparr>out = c, next_col = replicate (nat (rows a)) 0\<rparr>) (\<lambda>st.
           Inr (out st))))"

subsection \<open>The delegated product\<close>

text \<open>
  \<^verbatim>\<open>blas64.General\<close> and \<^verbatim>\<open>blas.Transpose\<close> of the gonum library. The routine
  \<^verbatim>\<open>blas64.Gemm\<close> belongs to that library, not to this package: it is a parameter \<open>gemm\<close> of
  \<open>BlasProduct\<close>, which for the seven arguments of the call either panics or returns the
  cells it has written to the buffer of its last argument. That buffer is the one of \<open>c\<close>,
  whose length the callee cannot change, so the cells returned overwrite those of \<open>c\<close>.
\<close>

datatype Transpose = NoTrans | Trans | ConjTrans

record General =
  gRows :: int
  gCols :: int
  gStride :: int
  gData :: "float64 list"

type_synonym gemm =
  "Transpose \<Rightarrow> Transpose \<Rightarrow> float64 \<Rightarrow> General \<Rightarrow> General \<Rightarrow> float64 \<Rightarrow> General
     \<Rightarrow> error + float64 list"

definition generalFromMat :: "Matrix \<Rightarrow> General" where
  "generalFromMat m = \<lparr>gRows = Rows m, gCols = Cols m, gStride = Cols m, gData = ToSlice m\<rparr>"

text \<open>The bits of \<^verbatim>\<open>1.0\<close>; those of \<^verbatim>\<open>0.0\<close> are \<open>0\<close>.\<close>

definition float_one :: float64 where
  "float_one = 0x3FF0000000000000"

definition BlasProduct :: "gemm \<Rightarrow> Matrix \<Rightarrow> Matrix \<Rightarrow> error + Matrix" where
  "BlasProduct gemm a b =
     seq (New (Rows a) (Cols b)) (\<lambda>c.
     seq (gemm NoTrans NoTrans float_one (generalFromMat a) (generalFromMat b) 0 (generalFromMat c))
       (\<lambda>d. Inr (c\<lparr>data := copy (data c) d\<rparr>)))"

subsection \<open>Matrices that share their buffers\<close>

text \<open>
  In Go a \<^verbatim>\<open>Matrix\<close> value holds a slice, that is, a reference to its buffer: copying the
  value, as passing it to a method with a value receiver does, copies the reference, and a
  write through the copy is seen through the original. Where that matters the buffers live in
  a store, a list of buffers addressed by their position, and a matrix value holds the address
  of its buffer. An allocation appends a buffer to the store. The operations below are those
  that look as if they modified a matrix; each returns the store it leaves.
\<close>

type_synonym store = "float64 list list"

record MatrixRef =
  ref_rows :: int
  ref_cols :: int
  buf :: nat

text \<open>The matrix that a reference denotes in a store.\<close>

definition deref :: "store \<Rightarrow> MatrixRef \<Rightarrow> Matrix" where
  "deref h m = \<lparr>rows = ref_rows m, cols = ref_cols m, data = h ! buf m\<rparr>"

definition New_ref :: "store \<Rightarrow> int \<Rightarrow> int \<Rightarrow> error + store \<times> MatrixRef" where
  "New_ref h r c =
     seq (make_len (mul64 r c)) (\<lambda>d. Inr (h @ [d], \<lparr>ref_rows = r, ref_cols = c, buf = length h\<rparr>))"

definition checkPos_ref :: "MatrixRef \<Rightarrow> int \<Rightarrow> int \<Rightarrow> error + unit" where
  "checkPos_ref m i j =
     (if i < 0 \<or> i \<ge> ref_rows m \<or> j < 0 \<or> j \<ge> ref_cols m then Inl (IndexOutOfRange i j)
      else Inr ())"

definition set_ref :: "store \<Rightarrow> MatrixRef \<Rightarrow> int \<Rightarrow> int \<Rightarrow> float64 \<Rightarrow> error + store" where
  "set_ref h m i j x =
     seq (assign (h ! buf m) (ref_cols m * i + j) x) (\<lambda>d. Inr (h[buf m := d]))"

definition Clone_ref :: "store \<Rightarrow> MatrixRef \<Rightarrow> error + store \<times> MatrixRef" where
  "Clone_ref h m =
     seq (New_ref h (ref_rows m) (ref_cols m)) (\<lambda>(h', c).
       Inr (h'[buf c := copy (h' ! buf c) (h' ! buf m)], c))"

definition Apply_ref :: "store \<Rightarrow> MatrixRef \<Rightarrow> (int \<Rightarrow> int \<Rightarrow> float64) \<Rightarrow> error + store" where
  "Apply_ref h m f =
     for_range (ref_rows m) (\<lambda>i.
       for_range (ref_cols m) (\<lambda>j h. set_ref h m i j (f i j))) h"

definition Set_ref :: "store \<Rightarrow> MatrixRef \<Rightarrow> int \<Rightarrow> int \<Rightarrow> float64 \<Rightarrow> error + store \<times> MatrixRef" where
  "Set_ref h m i j x =
     seq (checkPos_ref m i j) (\<lambda>_.
     seq (Clone_ref h m) (\<lambda>(h', r).
     seq (set_ref h' r i j x) (\<lambda>h''. Inr (h'', r))))"

definition Map_ref :: "(float64 \<Rightarrow> float64) \<Rightarrow> store \<Rightarrow> MatrixRef \<Rightarrow> error + store \<times> MatrixRef" where
  "Map_ref f h m =
     seq (Clone_ref h m) (\<lambda>(h', r).
     seq (for_range (int (length (h' ! buf r)))
            (\<lambda>i h. seq (index (h ! buf r) i) (\<lambda>v.
                    seq (assign (h ! buf r) i (f v)) (\<lambda>d. Inr (h[buf r := d])))) h') (\<lambda>h''.
     Inr (h'', r)))"

definition Scale_ref :: "(float64 \<Rightarrow> float64 \<Rightarrow> float64) \<Rightarrow> store \<Rightarrow> MatrixRef \<Rightarrow> float64
    \<Rightarrow> error + store \<times> MatrixRef" where
  "Scale_ref fmul h m x = Map_ref (\<lambda>v. fmul x v) h m"

definition AddScalar_ref :: "(float64 \<Rightarrow> float64 \<Rightarrow> float64) \<Rightarrow> store \<Rightarrow> MatrixRef \<Rightarrow> float64
    \<Rightarrow> error + store \<times> MatrixRef" where
  "AddScalar_ref fadd h m x = Map_ref (\<lambda>v. fadd x v) h m"

section \<open>Notions of the specification\<close>

text \<open>The data model of the specification: non-negative dimensions and a buffer of
  \<open>rows * cols\<close> cells.\<close>

definition valid :: "Matrix \<Rightarrow> bool" where
  "valid m = (0 \<le> rows m \<and> 0 \<le> cols m \<and> int (length (data m)) = rows m * cols m)"

text \<open>What holds of a state of the parallel product when the buffer of the result has \<open>n\<close>
  cells, whatever \<open>n\<close> is: the goroutine of a row that has written a cell has written it
  inside the buffer.\<close>

definition par_shape :: "int \<Rightarrow> Matrix \<Rightarrow> Matrix \<Rightarrow> par_state \<Rightarrow> bool" where
  "par_shape n a b st \<longleftrightarrow>
     cols (out st) = cols b \<and> int (length (data (out st))) = n
     \<and> length (next_col st) = nat (rows a)
     \<and> (\<forall>i < nat (rows a). 0 \<le> next_col st ! i \<and> next_col st ! i \<le> cols b
          \<and> (0 < next_col st ! i \<longrightarrow> cols b * int i + next_col st ! i - 1 < n))"

text \<open>A matrix of the data model with fewer than \<open>2\<^sup>6\<^sup>3\<close> cells: the size that \<open>New\<close>
  computes for a matrix of these dimensions does not wrap around.\<close>

definition sized :: "Matrix \<Rightarrow> bool" where
  "sized m = (valid m \<and> rows m * cols m < 2 ^ 63)"

text \<open>The cell \<open>(i, j)\<close> of a matrix: the element of the buffer at offset \<open>i * cols + j\<close>.\<close>

definition cell :: "Matrix \<Rightarrow> int \<Rightarrow> int \<Rightarrow> float64" where
  "cell m i j = data m ! nat (i * cols m + j)"

text \<open>The cells of row \<open>i\<close>: the segment of the buffer from offset \<open>i * cols\<close>.\<close>

definition row :: "Matrix \<Rightarrow> int \<Rightarrow> float64 list" where
  "row m i = take (nat (cols m)) (drop (nat (i * cols m)) (data m))"

text \<open>The sum over \<open>k = 0, \<dots>, a.cols - 1\<close> of the products \<open>a(i, k) * b(k, j)\<close>, added to
  \<open>0.0\<close> one after the other in increasing \<open>k\<close>.\<close>

definition dot :: "(float64 \<Rightarrow> float64 \<Rightarrow> float64) \<Rightarrow> (float64 \<Rightarrow> float64 \<Rightarrow> float64) \<Rightarrow>
    Matrix \<Rightarrow> Matrix \<Rightarrow> int \<Rightarrow> int \<Rightarrow> float64" where
  "dot fadd fmul a b i j =
     foldl (\<lambda>p k. fadd p (fmul (cell a i k) (cell b k j))) 0 (map int [0..<nat (cols a)])"

text \<open>The indices of the rows that \<open>FilterRows\<close> keeps.\<close>

definition kept :: "Matrix \<Rightarrow> (int \<Rightarrow> bool) \<Rightarrow> int list" where
  "kept m f = filter f (map int [0..<nat (rows m)])"

text \<open>What holds of a state of the parallel product between two steps: the result has its
  shape, every goroutine is at a column between \<open>0\<close> and \<open>b.cols\<close>, and the cells to the left
  of that column in its row hold their final values.\<close>

definition par_inv :: "(float64 \<Rightarrow> float64 \<Rightarrow> float64) \<Rightarrow> (float64 \<Rightarrow> float64 \<Rightarrow> float64) \<Rightarrow>
    Matrix \<Rightarrow> Matrix \<Rightarrow> par_state \<Rightarrow> bool" where
  "par_inv fadd fmul a b st \<longleftrightarrow>
     rows (out st) = rows a \<and> cols (out st) = cols b
     \<and> int (length (data (out st))) = rows a * cols b
     \<and> length (next_col st) = nat (rows a)
     \<and> (\<forall>i < nat (rows a). 0 \<le> next_col st ! i \<and> next_col st ! i \<le> cols b
          \<and> (\<forall>j. 0 \<le> j \<and> j < next_col st ! i \<longrightarrow>
                cell (out st) (int i) j = dot fadd fmul a b (int i) j))"

text \<open>
  The matrices that the public operations produce from dimensions that are not negative and
  sizes below \<open>2\<^sup>6\<^sup>3\<close>: a constructor called with such dimensions whose product is below
  \<open>2\<^sup>6\<^sup>3\<close>, or an operation applied to matrices that were produced in this way, where for
  a concatenation the summed dimension and the number of cells of the result, and for a
  product the number of cells of the result, are below \<open>2\<^sup>6\<^sup>3\<close>. The float operations,
  the functions and predicates passed to the operations, the schedule of the parallel product
  and the external routine of the delegated product are arbitrary.
\<close>

inductive produced :: "Matrix \<Rightarrow> bool" where
  by_New: "0 \<le> r \<Longrightarrow> 0 \<le> c \<Longrightarrow> r * c < 2 ^ 63 \<Longrightarrow> New r c = Inr m \<Longrightarrow> produced m"
| by_FromSlice:
    "0 \<le> r \<Longrightarrow> 0 \<le> c \<Longrightarrow> r * c < 2 ^ 63 \<Longrightarrow> FromSlice r c d = Inr m \<Longrightarrow> produced m"
| by_FromFunc:
    "0 \<le> r \<Longrightarrow> 0 \<le> c \<Longrightarrow> r * c < 2 ^ 63 \<Longrightarrow> FromFunc r c g = Inr m \<Longrightarrow> produced m"
| by_Clone: "produced m \<Longrightarrow> Clone m = Inr m' \<Longrightarrow> produced m'"
| by_Set: "produced m \<Longrightarrow> Set m i j x = Inr m' \<Longrightarrow> produced m'"
| by_Map: "produced m \<Longrightarrow> Map f m = Inr m' \<Longrightarrow> produced m'"
| by_Scale: "produced m \<Longrightarrow> Scale fmul m x = Inr m' \<Longrightarrow> produced m'"
| by_AddScalar: "produced m \<Longrightarrow> AddScalar fadd m x = Inr m' \<Longrightarrow> produced m'"
| by_ConcatenateCols:
    "(\<And>m. m \<in> set ms \<Longrightarrow> produced m) \<Longrightarrow> sum_list (map cols ms) < 2 ^ 63 \<Longrightarrow>
     rows (hd ms) * sum_list (map cols ms) < 2 ^ 63 \<Longrightarrow>
     ConcatenateCols ms = Inr m' \<Longrightarrow> produced m'"
| by_ConcatenateRows:
    "(\<And>m. m \<in> set ms \<Longrightarrow> produced m) \<Longrightarrow> sum_list (map rows ms) < 2 ^ 63 \<Longrightarrow>
     sum_list (map rows ms) * cols (hd ms) < 2 ^ 63 \<Longrightarrow>
     ConcatenateRows ms = Inr m' \<Longrightarrow> produced m'"
| by_SliceCols: "produced m \<Longrightarrow> SliceCols m from to = Inr m' \<Longrightarrow> produced m'"
| by_SliceRows: "produced m \<Longrightarrow> SliceRows m from to = Inr m' \<Longrightarrow> produced m'"
| by_FilterRows: "produced m \<Longrightarrow> FilterRows m keep = Inr m' \<Longrightarrow> produced m'"
| by_T: "produced m \<Longrightarrow> T m = Inr m' \<Longrightarrow> produced m'"
| by_Product:
    "produced a \<Longrightarrow> produced b \<Longrightarrow> rows a * cols b < 2 ^ 63 \<Longrightarrow>
     Product fadd fmul a b = Inr m' \<Longrightarrow> produced m'"
| by_ParallelProduct:
    "produced a \<Longrightarrow> produced b \<Longrightarrow> rows a * cols b < 2 ^ 63 \<Longrightarrow>
     ParallelProduct fadd fmul sched a b = Inr m' \<Longrightarrow> produced m'"
| by_BlasProduct:
    "produced a \<Longrightarrow> produced b \<Longrightarrow> rows a * cols b < 2 ^ 63 \<Longrightarrow>
     BlasProduct gemm a b = Inr m' \<Longrightarrow> produced m'"
| by_Dot: "produced a \<Longrightarrow> produced b \<Longrightarrow> Dot fmul a b = Inr m' \<Longrightarrow> produced m'"
| by_Plus: "produced a \<Longrightarrow> produced b \<Longrightarrow> Plus fadd a b = Inr m' \<Longrightarrow> produced m'"
| by_Minus: "produced a \<Longrightarrow> produced b \<Longrightarrow> Minus fsub a b = Inr m' \<Longrightarrow> produced m'"

subsection \<open>Matrices for the examples\<close>

text \<open>The cells of the examples are small bit patterns; where an example needs the float
  operations, the addition and multiplication of words stand in for them.\<close>

definition A23 :: Matrix where "A23 = \<lparr>rows = 2, cols = 3, data = [1, 2, 3, 4, 5, 6]\<rparr>"

definition B32 :: Matrix where "B32 = \<lparr>rows = 3, cols = 2, data = [1, 0, 0, 1, 1, 1]\<rparr>"

definition B22 :: Matrix where "B22 = \<lparr>rows = 2, cols = 2, data = [1, 0, 0, 1]\<rparr>"


text \<open>A \<open>1 \<times> 1\<close> matrix holding the quiet NaN.\<close>

definition NaN11 :: Matrix where "NaN11 = \<lparr>rows = 1, cols = 1, data = [0x7FF8000000000000]\<rparr>"

text \<open>The matrix of dimensions \<open>-1\<close> by \<open>-1\<close> that \<open>New\<close> returns.\<close>

definition Neg11 :: Matrix where
  "Neg11 = \<lparr>rows = -1, cols = -1, data = [0]\<rparr>"

text \<open>The zero matrix of dimensions \<open>2\<close> by \<open>3\<close> with one cell set, and its transpose.\<close>

definition Z23 :: Matrix where
  "Z23 = \<lparr>rows = 2, cols = 3, data = [0, 5, 0, 0, 0, 0]\<rparr>"

definition Z32 :: Matrix where
  "Z32 = \<lparr>rows = 3, cols = 2, data = [0, 0, 5, 0, 0, 0]\<rparr>"

text \<open>A \<open>5 \<times> 2\<close> matrix.\<close>

definition B52 :: Matrix where
  "B52 = \<lparr>rows = 5, cols = 2, data = [1, 0, 0, 1, 1, 1, 2, 0, 0, 2]\<rparr>"




text \<open>A store with one buffer, and the \<open>2 \<times> 2\<close> matrix that owns it.\<close>

definition H1 :: store where
  "H1 = [[1, 2, 3, 4]]"

definition M22 :: MatrixRef where
  "M22 = \<lparr>ref_rows = 2, ref_cols = 2, buf = 0\<rparr>"

section \<open>Auxiliary facts\<close>

subsection \<open>Integers that 64 bits hold\<close>

lemma wrap64_id: "- (2 ^ 63) \<le> x \<Longrightarrow> x < 2 ^ 63 \<Longrightarrow> wrap64 x = x"
  by (simp add: wrap64_def mod_pos_pos_trivial)

lemma wrap64_range: "- (2 ^ 63) \<le> wrap64 x" "wrap64 x < 2 ^ 63"
proof -
  have "0 \<le> (x + 2 ^ 63) mod (2 ^ 64 :: int)" "(x + 2 ^ 63) mod (2 ^ 64 :: int) < 2 ^ 64"
    by simp_all
  then show "- (2 ^ 63) \<le> wrap64 x" "wrap64 x < 2 ^ 63" by (simp_all add: wrap64_def)
qed

lemma mul64_id: "0 \<le> x * y \<Longrightarrow> x * y < 2 ^ 63 \<Longrightarrow> mul64 x y = x * y"
  by (simp add: mul64_def wrap64_id)

lemma add64_id: "0 \<le> x + y \<Longrightarrow> x + y < 2 ^ 63 \<Longrightarrow> add64 x y = x + y"
  by (simp add: add64_def wrap64_id)

subsection \<open>Sequencing and loops\<close>

lemma seq_Inl [simp]: "seq (Inl e) f = Inl e"
  by (simp add: seq_def)

lemma seq_Inr [simp]: "seq (Inr x) f = f x"
  by (simp add: seq_def)

lemma for_list_append:
  "for_list body (xs @ ys) s = seq (for_list body xs s) (for_list body ys)"
proof (induction xs arbitrary: s)
  case Nil
  show ?case by simp
next
  case (Cons x xs)
  show ?case by (cases "body x s") (simp_all add: Cons.IH)
qed

lemma seq_return [simp]: "seq m Inr = m"
  by (cases m) simp_all

lemma for_list_single [simp]: "for_list body [x] = body x"
proof
  fix s show "for_list body [x] s = body x s" by (cases "body x s") simp_all
qed

lemma for_range_nonpos: "n \<le> 0 \<Longrightarrow> for_range n body s = Inr s"
  by (simp add: for_range_def)

lemma for_range_step:
  "0 \<le> n \<Longrightarrow> for_range (n + 1) body s = seq (for_range n body s) (body n)"
  by (simp add: for_range_def nat_add_distrib for_list_append)

lemma for_range_invariant:
  assumes n: "0 \<le> n" and init: "P 0 s"
    and step: "\<And>i t. 0 \<le> i \<Longrightarrow> i < n \<Longrightarrow> P i t \<Longrightarrow> \<exists>t'. body i t = Inr t' \<and> P (i + 1) t'"
  shows "\<exists>s'. for_range n body s = Inr s' \<and> P n s'"
proof -
  have "int k \<le> n \<Longrightarrow> \<exists>s'. for_range (int k) body s = Inr s' \<and> P (int k) s'" for k
  proof (induction k)
    case 0
    show ?case using init by (simp add: for_range_nonpos)
  next
    case (Suc k)
    then obtain t where t: "for_range (int k) body s = Inr t" "P (int k) t" by auto
    from Suc.prems have "int k < n" by simp
    from step [OF _ this t(2)] obtain t' where "body (int k) t = Inr t'" "P (int k + 1) t'"
      by auto
    moreover have "for_range (int (Suc k)) body s = seq (for_range (int k) body s) (body (int k))"
      using for_range_step [of "int k" body s] by (simp add: add.commute)
    ultimately show ?case using t by (auto simp: add.commute)
  qed
  from this [of "nat n"] n show ?thesis by simp
qed

subsection \<open>Offsets and cells\<close>

lemma offset_bound:
  fixes i j r c :: int
  assumes "0 \<le> i" "i < r" "0 \<le> j" "j < c"
  shows "0 \<le> c * i + j" and "c * i + j < r * c"
proof -
  from assms show "0 \<le> c * i + j" by simp
  have "c * i + j < c * i + c" using assms by simp
  also have "\<dots> = c * (i + 1)" by (simp add: algebra_simps)
  also have "\<dots> \<le> c * r" using assms by (intro mult_left_mono) auto
  finally show "c * i + j < r * c" by (simp add: mult.commute)
qed

lemma offset_inj:
  fixes i j i' j' c :: int
  assumes "0 \<le> j" "j < c" "0 \<le> j'" "j' < c" "c * i + j = c * i' + j'"
  shows "i = i' \<and> j = j'"
proof -
  have c: "c \<noteq> 0" using assms(1,2) by auto
  have "(c * i + j) div c = i" using assms(1,2) c by (simp add: div_pos_pos_trivial)
  moreover have "(c * i' + j') div c = i'" using assms(3,4) c by (simp add: div_pos_pos_trivial)
  ultimately have "i = i'" using assms(5) by simp
  with assms(5) show ?thesis by simp
qed

lemma at_cell:
  assumes "int (length (data m)) = rows m * cols m" "0 \<le> i" "i < rows m" "0 \<le> j" "j < cols m"
  shows "at m i j = Inr (cell m i j)"
  using offset_bound [OF assms(2-5)] assms(1)
  by (simp add: at_def index_def cell_def mult.commute)

lemma set'_cell:
  assumes len: "int (length (data m)) = rows m * cols m"
    and ij: "0 \<le> i" "i < rows m" "0 \<le> j" "j < cols m"
  shows "\<exists>m'. set' m i j x = Inr m' \<and> rows m' = rows m \<and> cols m' = cols m
            \<and> length (data m') = length (data m)
            \<and> (\<forall>i' j'. 0 \<le> i' \<and> 0 \<le> j' \<and> j' < cols m \<longrightarrow>
                  cell m' i' j' = (if i' = i \<and> j' = j then x else cell m i' j'))"
proof -
  let ?k = "cols m * i + j"
  from offset_bound [OF ij] len have k: "0 \<le> ?k" "?k < int (length (data m))" by simp_all
  then have res: "set' m i j x = Inr (m\<lparr>data := (data m)[nat ?k := x]\<rparr>)"
    by (simp add: set'_def assign_def)
  have "cell (m\<lparr>data := (data m)[nat ?k := x]\<rparr>) i' j' = (if i' = i \<and> j' = j then x else cell m i' j')"
    if "0 \<le> i'" "0 \<le> j'" "j' < cols m" for i' j'
  proof (cases "i' = i \<and> j' = j")
    case True
    then show ?thesis using k by (simp add: cell_def mult.commute)
  next
    case False
    have "cols m * i' + j' \<noteq> ?k" using offset_inj [OF that(2,3) ij(3,4)] False by blast
    moreover have "0 \<le> cols m * i' + j'" using that ij by simp
    ultimately have "nat (cols m * i' + j') \<noteq> nat ?k" using k(1) by simp
    then have "cell (m\<lparr>data := (data m)[nat ?k := x]\<rparr>) i' j' = cell m i' j'"
      by (simp add: cell_def mult.commute)
    with False show ?thesis by auto
  qed
  with res show ?thesis by simp
qed

subsection \<open>Loops that fill a matrix\<close>

lemma seq_assoc: "seq (seq m f) g = seq m (\<lambda>x. seq (f x) g)"
  by (cases m) simp_all

text \<open>A nest of two loops that stores a value \<open>g i j\<close> at the position \<open>(pi i j, pj i j)\<close>,
  a different one at every step.\<close>

lemma fill_positions:
  assumes len: "int (length (data m)) = rows m * cols m"
    and val: "\<And>i j. 0 \<le> i \<Longrightarrow> i < n \<Longrightarrow> 0 \<le> j \<Longrightarrow> j < k \<Longrightarrow> val i j = Inr (g i j)"
    and pos: "\<And>i j. 0 \<le> i \<Longrightarrow> i < n \<Longrightarrow> 0 \<le> j \<Longrightarrow> j < k \<Longrightarrow>
                 0 \<le> pi i j \<and> pi i j < rows m \<and> 0 \<le> pj i j \<and> pj i j < cols m"
    and inj: "\<And>i j i' j'. 0 \<le> i \<Longrightarrow> i < n \<Longrightarrow> 0 \<le> j \<Longrightarrow> j < k \<Longrightarrow>
                 0 \<le> i' \<Longrightarrow> i' < n \<Longrightarrow> 0 \<le> j' \<Longrightarrow> j' < k \<Longrightarrow>
                 pi i j = pi i' j' \<Longrightarrow> pj i j = pj i' j' \<Longrightarrow> i = i' \<and> j = j'"
    and n: "0 \<le> n" and k: "0 \<le> k"
  shows "\<exists>m'. for_range n (\<lambda>i. for_range k (\<lambda>j t. seq (val i j) (\<lambda>p. set' t (pi i j) (pj i j) p))) m
                 = Inr m'
            \<and> rows m' = rows m \<and> cols m' = cols m \<and> length (data m') = length (data m)
            \<and> (\<forall>i j. 0 \<le> i \<and> i < n \<and> 0 \<le> j \<and> j < k \<longrightarrow> cell m' (pi i j) (pj i j) = g i j)"
proof -
  define shape where "shape t \<longleftrightarrow> rows t = rows m \<and> cols t = cols m \<and> length (data t) = length (data m)"
    for t :: Matrix
  define done_rows where "done_rows a t \<longleftrightarrow>
      (\<forall>i j. 0 \<le> i \<and> i < a \<and> 0 \<le> j \<and> j < k \<longrightarrow> cell t (pi i j) (pj i j) = g i j)"
    for a and t :: Matrix
  define done_cols where "done_cols i a t \<longleftrightarrow>
      (\<forall>j. 0 \<le> j \<and> j < a \<longrightarrow> cell t (pi i j) (pj i j) = g i j)"
    for i a and t :: Matrix
  have step: "\<exists>u'. seq (val i j) (\<lambda>p. set' u (pi i j) (pj i j) p) = Inr u'
                \<and> (shape u' \<and> done_rows i u' \<and> done_cols i (j + 1) u')"
    if i: "0 \<le> i" "i < n" and j: "0 \<le> j" "j < k"
      and u: "shape u \<and> done_rows i u \<and> done_cols i j u" for i j u
  proof -
    from u have lenu: "int (length (data u)) = rows u * cols u"
      and ru: "rows u = rows m" and cu: "cols u = cols m"
      using len by (simp_all add: shape_def)
    have p: "0 \<le> pi i j" "pi i j < rows u" "0 \<le> pj i j" "pj i j < cols u"
      using pos [OF i j] ru cu by simp_all
    from set'_cell [OF lenu p, of "g i j"]
    obtain u' where u': "set' u (pi i j) (pj i j) (g i j) = Inr u'" "rows u' = rows u"
      "cols u' = cols u" "length (data u') = length (data u)"
      "\<And>i' j'. 0 \<le> i' \<Longrightarrow> 0 \<le> j' \<Longrightarrow> j' < cols u \<Longrightarrow>
          cell u' i' j' = (if i' = pi i j \<and> j' = pj i j then g i j else cell u i' j')"
      by auto
    have keep: "cell u' (pi i' j') (pj i' j') = cell u (pi i' j') (pj i' j')"
      if "0 \<le> i'" "i' < n" "0 \<le> j'" "j' < k" "\<not> (i' = i \<and> j' = j)" for i' j'
    proof -
      have q: "0 \<le> pi i' j'" "0 \<le> pj i' j'" "pj i' j' < cols u"
        using pos [OF that(1-4)] cu by simp_all
      have "\<not> (pi i' j' = pi i j \<and> pj i' j' = pj i j)"
        using inj [OF that(1-4) i j] that(5) by blast
      with u'(5) [OF q] show ?thesis by auto
    qed
    have here: "cell u' (pi i j) (pj i j) = g i j"
      using u'(5) [OF p(1,3,4)] by simp
    have "shape u'" using u u'(2-4) by (simp add: shape_def)
    moreover have "done_rows i u'"
      unfolding done_rows_def
    proof (intro allI impI)
      fix i' j' assume a: "0 \<le> i' \<and> i' < i \<and> 0 \<le> j' \<and> j' < k"
      then have "cell u' (pi i' j') (pj i' j') = cell u (pi i' j') (pj i' j')"
        using i by (intro keep) auto
      with u a show "cell u' (pi i' j') (pj i' j') = g i' j'" by (simp add: done_rows_def)
    qed
    moreover have "done_cols i (j + 1) u'"
      unfolding done_cols_def
    proof (intro allI impI)
      fix j' assume a: "0 \<le> j' \<and> j' < j + 1"
      show "cell u' (pi i j') (pj i j') = g i j'"
      proof (cases "j' = j")
        case True
        then show ?thesis using here by simp
      next
        case False
        then have "cell u' (pi i j') (pj i j') = cell u (pi i j') (pj i j')"
          using a i j by (intro keep) auto
        with u a False show ?thesis by (simp add: done_cols_def)
      qed
    qed
    ultimately show ?thesis using val [OF i j] u'(1) by simp
  qed
  have row: "\<exists>t'. for_range k (\<lambda>j t. seq (val i j) (\<lambda>p. set' t (pi i j) (pj i j) p)) t = Inr t'
                \<and> (shape t' \<and> done_rows (i + 1) t')"
    if i: "0 \<le> i" "i < n" and t: "shape t \<and> done_rows i t" for i t
  proof -
    have "\<exists>t'. for_range k (\<lambda>j t. seq (val i j) (\<lambda>p. set' t (pi i j) (pj i j) p)) t = Inr t'
              \<and> (shape t' \<and> done_rows i t' \<and> done_cols i k t')"
    proof (rule for_range_invariant [where P = "\<lambda>a t. shape t \<and> done_rows i t \<and> done_cols i a t"])
      show "0 \<le> k" by (rule k)
      show "shape t \<and> done_rows i t \<and> done_cols i 0 t" using t by (auto simp: done_cols_def)
    next
      fix j u
      assume "0 \<le> j" "j < k" "shape u \<and> done_rows i u \<and> done_cols i j u"
      then show "\<exists>t'. seq (val i j) (\<lambda>p. set' u (pi i j) (pj i j) p) = Inr t'
                \<and> (shape t' \<and> done_rows i t' \<and> done_cols i (j + 1) t')"
        by (rule step [OF i])
    qed
    then obtain t' where t': "for_range k (\<lambda>j t. seq (val i j) (\<lambda>p. set' t (pi i j) (pj i j) p)) t = Inr t'"
      "shape t'" "done_rows i t'" "done_cols i k t'" by auto
    have "done_rows (i + 1) t'"
      unfolding done_rows_def
    proof (intro allI impI)
      fix i' j assume a: "0 \<le> i' \<and> i' < i + 1 \<and> 0 \<le> j \<and> j < k"
      show "cell t' (pi i' j) (pj i' j) = g i' j"
      proof (cases "i' = i")
        case True then show ?thesis using t'(4) a by (simp add: done_cols_def)
      next
        case False then show ?thesis using t'(3) a by (simp add: done_rows_def)
      qed
    qed
    with t' show ?thesis by simp
  qed
  have "\<exists>m'. for_range n (\<lambda>i. for_range k (\<lambda>j t. seq (val i j) (\<lambda>p. set' t (pi i j) (pj i j) p))) m
                 = Inr m' \<and> (shape m' \<and> done_rows n m')"
  proof (rule for_range_invariant [where P = "\<lambda>a t. shape t \<and> done_rows a t"])
    show "0 \<le> n" by (rule n)
    show "shape m \<and> done_rows 0 m" by (auto simp: shape_def done_rows_def)
  next
    fix i t assume "0 \<le> i" "i < n" "shape t \<and> done_rows i t"
    then show "\<exists>t'. for_range k (\<lambda>j t. seq (val i j) (\<lambda>p. set' t (pi i j) (pj i j) p)) t = Inr t'
                \<and> (shape t' \<and> done_rows (i + 1) t')"
      by (rule row)
  qed
  then show ?thesis by (auto simp: shape_def done_rows_def)
qed

lemma fill_cells:
  assumes len: "int (length (data m)) = rows m * cols m"
    and val: "\<And>i j. 0 \<le> i \<Longrightarrow> i < rows m \<Longrightarrow> 0 \<le> j \<Longrightarrow> j < cols m \<Longrightarrow> val i j = Inr (g i j)"
    and r: "0 \<le> rows m" and c: "0 \<le> cols m"
  shows "\<exists>m'. for_range (rows m) (\<lambda>i. for_range (cols m) (\<lambda>j t. seq (val i j) (\<lambda>p. set' t i j p))) m
                 = Inr m'
            \<and> rows m' = rows m \<and> cols m' = cols m \<and> length (data m') = length (data m)
            \<and> (\<forall>i j. 0 \<le> i \<and> i < rows m \<and> 0 \<le> j \<and> j < cols m \<longrightarrow> cell m' i j = g i j)"
  by (rule fill_positions [where pi = "\<lambda>i j. i" and pj = "\<lambda>i j. j", OF len val _ _ r c]) simp_all

subsection \<open>The cells of the product\<close>

lemma New_nonneg:
  assumes "0 \<le> r" "0 \<le> c" "r * c < 2 ^ 63"
  shows "New r c = Inr \<lparr>rows = r, cols = c, data = replicate (nat (r * c)) 0\<rparr>"
proof -
  have "0 \<le> r * c" using assms(1,2) by simp
  then have "mul64 r c = r * c" using assms(3) by (rule mul64_id)
  then show ?thesis using \<open>0 \<le> r * c\<close> by (simp add: New_def make_len_def not_less)
qed

lemma inner_dot:
  assumes a: "valid a" and b: "valid b" and ab: "cols a = rows b"
    and ij: "0 \<le> i" "i < rows a" "0 \<le> j" "j < cols b"
  shows "inner fadd fmul a b i j = Inr (dot fadd fmul a b i j)"
proof -
  let ?acc = "\<lambda>p k. fadd p (fmul (cell a i k) (cell b k j))"
  have "\<exists>p. inner fadd fmul a b i j = Inr p \<and> p = foldl ?acc 0 (map int [0..<nat (cols a)])"
    unfolding inner_def
  proof (rule for_range_invariant [where P = "\<lambda>n p. p = foldl ?acc 0 (map int [0..<nat n])"])
    show "0 \<le> cols a" using a by (simp add: valid_def)
    show "0 = foldl ?acc 0 (map int [0..<nat 0])" by simp
  next
    fix k p
    assume k: "0 \<le> k" "k < cols a" and p: "p = foldl ?acc 0 (map int [0..<nat k])"
    have "at a i k = Inr (cell a i k)"
      using a ij k by (intro at_cell) (simp_all add: valid_def)
    moreover have "at b k j = Inr (cell b k j)"
      using b ij k ab by (intro at_cell) (simp_all add: valid_def)
    moreover have "foldl ?acc 0 (map int [0..<nat (k + 1)]) = ?acc p k"
      using k p by (simp add: nat_add_distrib)
    ultimately show "\<exists>t'. seq (at a i k) (\<lambda>x. seq (at b k j) (\<lambda>y. Inr (fadd p (fmul x y)))) = Inr t'
            \<and> t' = foldl ?acc 0 (map int [0..<nat (k + 1)])"
      by simp
  qed
  then show ?thesis by (simp add: dot_def)
qed

lemma Product_cells:
  assumes a: "valid a" and b: "valid b" and ab: "cols a = rows b"
    and fit: "rows a * cols b < 2 ^ 63"
  shows "\<exists>c. Product fadd fmul a b = Inr c \<and> rows c = rows a \<and> cols c = cols b
           \<and> int (length (data c)) = rows a * cols b
           \<and> (\<forall>i j. 0 \<le> i \<and> i < rows a \<and> 0 \<le> j \<and> j < cols b \<longrightarrow>
                 cell c i j = dot fadd fmul a b i j)"
proof -
  let ?c = "\<lparr>rows = rows a, cols = cols b, data = replicate (nat (rows a * cols b)) 0\<rparr>"
  have ra: "0 \<le> rows a" and cb: "0 \<le> cols b" using a b by (simp_all add: valid_def)
  have new: "New (rows a) (cols b) = Inr ?c" using ra cb fit by (rule New_nonneg)
  have len: "int (length (data ?c)) = rows ?c * cols ?c" using ra cb by simp
  from fill_cells [of ?c "inner fadd fmul a b" "dot fadd fmul a b", OF len]
    inner_dot [OF a b ab] ra cb
  obtain c where "for_range (rows a) (\<lambda>i. for_range (cols b)
        (\<lambda>j t. seq (inner fadd fmul a b i j) (\<lambda>p. set' t i j p))) ?c = Inr c"
    "rows c = rows a" "cols c = cols b" "length (data c) = length (data ?c)"
    "\<forall>i j. 0 \<le> i \<and> i < rows a \<and> 0 \<le> j \<and> j < cols b \<longrightarrow> cell c i j = dot fadd fmul a b i j"
    by auto
  then show ?thesis using ab new ra cb by (simp add: Product_def)
qed

lemma At_cell:
  assumes "int (length (data m)) = rows m * cols m" "0 \<le> i" "i < rows m" "0 \<le> j" "j < cols m"
  shows "At m i j = Inr (cell m i j)"
  using at_cell [OF assms] assms by (simp add: At_def checkPos_def)

subsection \<open>The comparison of two buffers\<close>

lemma float_eq_sym: "float_eq x y = float_eq y x"
  by (auto simp: float_eq_def)

lemma float_eq_refl: "float_eq x x = (\<not> isNaN x)"
  by (auto simp: float_eq_def)

lemma offset_decompose:
  fixes k r c :: int
  assumes "0 \<le> k" "k < r * c" "0 \<le> c"
  shows "\<exists>i j. 0 \<le> i \<and> i < r \<and> 0 \<le> j \<and> j < c \<and> k = i * c + j"
proof -
  have c: "0 < c" using assms by (cases "c = 0") auto
  have le: "(k div c) * c \<le> k"
  proof -
    have "k = (k div c) * c + k mod c" by simp
    moreover have "0 \<le> k mod c" using c by simp
    ultimately show ?thesis by linarith
  qed
  have "k div c < r"
  proof (rule ccontr)
    assume "\<not> k div c < r"
    then have "r * c \<le> (k div c) * c" using c by (intro mult_right_mono) auto
    with le assms(2) show False by linarith
  qed
  moreover have "0 \<le> k div c" using assms(1) c by (simp add: pos_imp_zdiv_nonneg_iff)
  moreover have "0 \<le> k mod c" "k mod c < c" using c by simp_all
  moreover have "k = (k div c) * c + k mod c" by simp
  ultimately show ?thesis by blast
qed

lemma Equals_loop_all:
  "n + length vs \<le> length bd \<Longrightarrow>
   Equals_loop vs bd (int n) = Inr (\<forall>k < length vs. float_eq (vs ! k) (bd ! (n + k)))"
proof (induction vs arbitrary: n)
  case Nil
  show ?case by simp
next
  case (Cons v vs)
  have "index bd (int n) = Inr (bd ! n)" using Cons.prems by (simp add: index_def)
  moreover have "Equals_loop vs bd (int (Suc n)) = Inr (\<forall>k < length vs. float_eq (vs ! k) (bd ! (Suc n + k)))"
    using Cons.prems by (intro Cons.IH) simp
  ultimately show ?case
    by (auto simp: add.commute less_Suc_eq_0_disj)
qed

lemma cells_buffer:
  assumes a: "valid a" and b: "valid b" and r: "rows a = rows b" and c: "cols a = cols b"
  shows "(\<forall>i j. 0 \<le> i \<and> i < rows a \<and> 0 \<le> j \<and> j < cols a \<longrightarrow> P (cell a i j) (cell b i j))
       \<longleftrightarrow> (\<forall>k < length (data a). P (data a ! k) (data b ! k))"
proof (intro iffI allI impI)
  fix k
  assume cells: "\<forall>i j. 0 \<le> i \<and> i < rows a \<and> 0 \<le> j \<and> j < cols a \<longrightarrow> P (cell a i j) (cell b i j)"
    and k: "k < length (data a)"
  from k a have "int k < rows a * cols a" "0 \<le> cols a" "0 \<le> int k" by (simp_all add: valid_def)
  from offset_decompose [OF this(3,1,2)]
  obtain i j where ij: "0 \<le> i" "i < rows a" "0 \<le> j" "j < cols a" "int k = i * cols a + j" by blast
  from ij(5) have "nat (i * cols a + j) = nat (int k)" by simp
  then have "cell a i j = data a ! k" "cell b i j = data b ! k"
    using c by (simp_all add: cell_def)
  with cells ij show "P (data a ! k) (data b ! k)" by metis
next
  fix i j
  assume buf: "\<forall>k < length (data a). P (data a ! k) (data b ! k)"
    and ij: "0 \<le> i \<and> i < rows a \<and> 0 \<le> j \<and> j < cols a"
  then have "0 \<le> cols a * i + j" "cols a * i + j < rows a * cols a"
    using offset_bound [of i "rows a" j "cols a"] by simp_all
  moreover have "int (length (data a)) = rows a * cols a" using a by (simp add: valid_def)
  ultimately have "nat (i * cols a + j) < length (data a)" by (simp add: mult.commute nat_less_iff)
  with buf show "P (cell a i j) (cell b i j)" using c by (simp add: cell_def)
qed

lemma Equals_buffer:
  assumes "valid a" "valid b" "rows a = rows b" "cols a = cols b"
  shows "Equals a b = Inr (\<forall>k < length (data a). float_eq (data a ! k) (data b ! k))"
proof -
  have "length (data a) = length (data b)" using assms by (simp add: valid_def)
  then have "0 + length (data a) \<le> length (data b)" by simp
  from Equals_loop_all [OF this] assms(3,4) show ?thesis by (simp add: Equals_def)
qed

subsection \<open>Rows as segments of the buffer\<close>

lemma for_list_collect:
  "(\<And>x d. x \<in> set xs \<Longrightarrow> body x d = Inr (d @ g x)) \<Longrightarrow>
   for_list body xs d = Inr (d @ concat (map g xs))"
  by (induction xs arbitrary: d) simp_all

lemma for_range_collect:
  assumes "\<And>i d. 0 \<le> i \<Longrightarrow> i < n \<Longrightarrow> body i d = Inr (d @ g i)"
  shows "for_range n body d = Inr (d @ concat (map g (map int [0..<nat n])))"
  unfolding for_range_def by (rule for_list_collect) (use assms in auto)

lemma length_concat_segments:
  "(\<And>i. i < r \<Longrightarrow> length (g i) = c) \<Longrightarrow> length (concat (map g [0..<r])) = r * c"
  by (induction r) simp_all

lemma segment_of_concat:
  assumes "\<And>i. i < r \<Longrightarrow> length (g i) = c" and "i < r"
  shows "take c (drop (i * c) (concat (map g [0..<r]))) = g i"
  using assms
proof (induction r)
  case 0
  then show ?case by simp
next
  case (Suc r)
  have len: "length (concat (map g [0..<r])) = r * c"
    using Suc.prems(1) by (intro length_concat_segments) simp
  show ?case
  proof (cases "i < r")
    case True
    then have "i * c + c \<le> r * c"
      by (metis Suc_leI mult_Suc mult_le_mono1 add.commute)
    moreover have "take c (drop (i * c) (concat (map g [0..<r]))) = g i"
      using Suc.IH [OF _ True] Suc.prems(1) by simp
    ultimately show ?thesis using len by simp
  next
    case False
    with Suc.prems(2) have "i = r" by simp
    then show ?thesis using len Suc.prems(1) [of r] by simp
  qed
qed

lemma concat_segments:
  "length xs = r * c \<Longrightarrow> concat (map (\<lambda>i. take c (drop (i * c) xs)) [0..<r]) = xs"
proof (induction r arbitrary: xs)
  case 0
  then show ?case by simp
next
  case (Suc r)
  let ?ys = "take (r * c) xs"
  have "length ?ys = r * c" using Suc.prems by simp
  from Suc.IH [OF this]
  have "concat (map (\<lambda>i. take c (drop (i * c) ?ys)) [0..<r]) = ?ys" .
  moreover have "take c (drop (i * c) ?ys) = take c (drop (i * c) xs)" if "i < r" for i
  proof -
    from that have "i * c + c \<le> r * c"
      by (metis Suc_leI mult_Suc mult_le_mono1 add.commute)
    then show ?thesis by (simp add: drop_take min_def)
  qed
  ultimately have "concat (map (\<lambda>i. take c (drop (i * c) xs)) [0..<r]) = ?ys"
    by (metis (no_types, lifting) atLeastLessThan_iff map_eq_conv set_upt)
  moreover have "take c (drop (r * c) xs) = drop (r * c) xs" using Suc.prems by simp
  ultimately show ?case by simp
qed

lemma valid_nat:
  assumes "valid m"
  obtains r c where "rows m = int r" "cols m = int c" "length (data m) = r * c"
proof -
  from assms have "rows m = int (nat (rows m))" "cols m = int (nat (cols m))"
    by (simp_all add: valid_def)
  moreover from assms have "int (length (data m)) = int (nat (rows m) * nat (cols m))"
    by (simp add: valid_def)
  then have "length (data m) = nat (rows m) * nat (cols m)" by (simp only: of_nat_eq_iff)
  ultimately show thesis using that by blast
qed

lemma row_nat: "cols m = int c \<Longrightarrow> row m (int i) = take c (drop (i * c) (data m))"
  by (simp add: row_def flip: of_nat_mult)

lemma segment_bound:
  fixes i r c :: nat
  shows "i < r \<Longrightarrow> i * c + c \<le> r * c"
  by (metis Suc_leI mult_Suc mult_le_mono1 add.commute)

lemma row_length:
  assumes "valid m" "i < nat (rows m)"
  shows "length (row m (int i)) = nat (cols m)"
proof -
  from assms(1) obtain r c where rc: "rows m = int r" "cols m = int c" "length (data m) = r * c"
    by (rule valid_nat)
  have "i * c + c \<le> length (data m)" using segment_bound [of i r c] assms(2) rc by simp
  then show ?thesis using rc by (simp add: row_nat)
qed

lemma data_rows:
  assumes "valid m"
  shows "concat (map (row m) (map int [0..<nat (rows m)])) = data m"
proof -
  from assms obtain r c where rc: "rows m = int r" "cols m = int c" "length (data m) = r * c"
    by (rule valid_nat)
  have "concat (map (row m) (map int [0..<nat (rows m)]))
      = concat (map (\<lambda>i. take c (drop (i * c) (data m))) [0..<r])"
    using rc by (simp add: row_nat comp_def)
  also have "\<dots> = data m" using rc(3) by (rule concat_segments)
  finally show ?thesis .
qed

lemma slice_segment:
  assumes m: "valid m" and i: "i < nat (rows m)" and ft: "0 \<le> f" "f \<le> t" "t \<le> cols m"
  shows "slice (data m) (int i * cols m + f) (int i * cols m + t)
           = Inr (take (nat (t - f)) (drop (nat f) (row m (int i))))"
proof -
  from m obtain r c where rc: "rows m = int r" "cols m = int c" "length (data m) = r * c"
    by (rule valid_nat)
  from ft obtain f' t' where ft': "f = int f'" "t = int t'"
    by (metis nonneg_int_cases order_trans)
  have le: "f' \<le> t'" "t' \<le> c" using ft rc ft' by simp_all
  have "i * c + c \<le> length (data m)" using segment_bound [of i r c] i rc by simp
  then have hi: "i * c + t' \<le> length (data m)" using le by simp
  have e1: "nat (int i * int c + int f') = i * c + f'"
    by (metis nat_int of_nat_add of_nat_mult)
  have e2: "int i * int c + int t' \<le> int (length (data m))"
    using hi by (metis of_nat_add of_nat_mult of_nat_le_iff)
  have e3: "nat (int t' - int f') = t' - f'" by simp
  have e4: "0 \<le> int i * int c + int f'" by simp
  have "slice (data m) (int i * int c + int f') (int i * int c + int t')
      = Inr (take (t' - f') (drop (i * c + f') (data m)))"
    unfolding slice_def using e1 e2 e3 e4 le by simp
  moreover have "take (t' - f') (drop f' (row m (int i))) = take (t' - f') (drop (i * c + f') (data m))"
    using le rc by (simp add: row_nat drop_take add.commute min_def)
  ultimately show ?thesis using rc ft' e3 by simp
qed

lemma slice_row:
  assumes "valid m" "i < nat (rows m)"
  shows "slice (data m) (int i * cols m) ((int i + 1) * cols m) = Inr (row m (int i))"
proof -
  have c: "0 \<le> cols m" using assms(1) by (simp add: valid_def)
  have "length (row m (int i)) = nat (cols m)" using assms by (rule row_length)
  then show ?thesis
    using slice_segment [OF assms, of 0 "cols m"] c by (simp add: algebra_simps)
qed

subsection \<open>Slices\<close>

lemma SliceCols_result:
  assumes m: "valid m" and ft: "0 \<le> f" "f \<le> t" "t \<le> cols m"
  shows "SliceCols m f t = Inr \<lparr>rows = rows m, cols = t - f,
           data = concat (map (\<lambda>i. take (nat (t - f)) (drop (nat f) (row m i)))
                    (map int [0..<nat (rows m)]))\<rparr>"
proof -
  have "0 \<le> rows m * (t - f)" using m ft by (simp add: valid_def)
  then have cap: "make_cap (rows m * (t - f)) = Inr []" by (simp add: make_cap_def)
  have "for_range (rows m) (\<lambda>i d. seq (slice (data m) (i * cols m + f) (i * cols m + t))
                      (\<lambda>s. Inr (d @ s))) []
      = Inr ([] @ concat (map (\<lambda>i. take (nat (t - f)) (drop (nat f) (row m i)))
                    (map int [0..<nat (rows m)])))"
  proof (rule for_range_collect)
    fix i :: int and d :: "float64 list" assume "0 \<le> i" "i < rows m"
    then have "nat i < nat (rows m)" "int (nat i) = i" by simp_all
    with slice_segment [OF m this(1) ft]
    show "seq (slice (data m) (i * cols m + f) (i * cols m + t)) (\<lambda>s. Inr (d @ s))
            = Inr (d @ take (nat (t - f)) (drop (nat f) (row m i)))" by simp
  qed
  with cap ft show ?thesis by (simp add: SliceCols_def)
qed

lemma SliceRows_result:
  assumes m: "valid m" and ft: "0 \<le> f" "f \<le> t" "t \<le> rows m"
  shows "SliceRows m f t = Inr \<lparr>rows = t - f, cols = cols m,
           data = take (nat ((t - f) * cols m)) (drop (nat (f * cols m)) (data m))\<rparr>"
proof -
  have c: "0 \<le> cols m" and len: "int (length (data m)) = rows m * cols m"
    using m by (simp_all add: valid_def)
  have n: "0 \<le> cols m * (t - f)" using c ft by simp
  then have mk: "make_len (cols m * (t - f)) = Inr (replicate (nat (cols m * (t - f))) 0)"
    by (simp add: make_len_def)
  have lo: "0 \<le> f * cols m" "f * cols m \<le> t * cols m" using c ft by (simp_all add: mult_right_mono)
  have hi: "t * cols m \<le> int (length (data m))" using c ft len by (simp add: mult_right_mono)
  have sl: "slice (data m) (f * cols m) (t * cols m)
      = Inr (take (nat ((t - f) * cols m)) (drop (nat (f * cols m)) (data m)))"
    using lo hi by (simp add: slice_def algebra_simps)
  have "length (take (nat ((t - f) * cols m)) (drop (nat (f * cols m)) (data m)))
      = nat ((t - f) * cols m)"
    using lo hi by (simp add: algebra_simps)
  then have "copy (replicate (nat (cols m * (t - f))) 0)
        (take (nat ((t - f) * cols m)) (drop (nat (f * cols m)) (data m)))
      = take (nat ((t - f) * cols m)) (drop (nat (f * cols m)) (data m))"
    by (simp add: copy_def mult.commute)
  with mk sl ft show ?thesis by (simp add: SliceRows_def)
qed

lemma SliceCols_valid:
  assumes m: "valid m" and ft: "0 \<le> f" "f \<le> t" "t \<le> cols m"
  shows "\<exists>s. SliceCols m f t = Inr s \<and> valid s \<and> rows s = rows m \<and> cols s = t - f"
proof -
  let ?g = "\<lambda>i. take (nat (t - f)) (drop (nat f) (row m (int i)))"
  have "length (?g i) = nat (t - f)" if "i < nat (rows m)" for i
    using row_length [OF m that] ft by simp
  then have "length (concat (map ?g [0..<nat (rows m)])) = nat (rows m) * nat (t - f)"
    by (rule length_concat_segments)
  moreover have "int (nat (rows m) * nat (t - f)) = rows m * (t - f)"
    using m ft by (simp add: valid_def)
  ultimately have "int (length (concat (map ?g [0..<nat (rows m)]))) = rows m * (t - f)"
    by simp
  then show ?thesis
    using SliceCols_result [OF m ft] m ft by (simp add: valid_def comp_def)
qed

lemma SliceRows_valid:
  assumes m: "valid m" and ft: "0 \<le> f" "f \<le> t" "t \<le> rows m"
  shows "\<exists>s. SliceRows m f t = Inr s \<and> valid s \<and> rows s = t - f \<and> cols s = cols m"
proof -
  have c: "0 \<le> cols m" and len: "int (length (data m)) = rows m * cols m"
    using m by (simp_all add: valid_def)
  have "0 \<le> f * cols m" "f * cols m \<le> t * cols m" "t * cols m \<le> int (length (data m))"
    using c ft len by (simp_all add: mult_right_mono)
  then have "int (length (take (nat ((t - f) * cols m)) (drop (nat (f * cols m)) (data m))))
      = (t - f) * cols m"
    by (simp add: algebra_simps)
  then show ?thesis
    using SliceRows_result [OF m ft] c ft by (simp add: valid_def)
qed

subsection \<open>Concatenations\<close>

lemma sum_cols_nonneg:
  "(\<And>m. m \<in> set ms \<Longrightarrow> 0 \<le> cols m) \<Longrightarrow> 0 \<le> sum_list (map cols ms)"
  by (induction ms) simp_all

lemma count_cols_loop:
  assumes "\<And>m. m \<in> set ms \<Longrightarrow> rows m = r" and "\<And>m. m \<in> set ms \<Longrightarrow> 0 \<le> cols m"
    and "0 \<le> c" and "c + sum_list (map cols ms) < 2 ^ 63"
  shows "for_list (\<lambda>m c. if r \<noteq> Rows m then Inl (DimensionMismatch [])
                         else Inr (add64 c (Cols m))) ms c
           = Inr (c + sum_list (map cols ms))"
  using assms
proof (induction ms arbitrary: c)
  case Nil
  show ?case by simp
next
  case (Cons m ms)
  have m: "rows m = r" "0 \<le> cols m" using Cons.prems(1,2) by simp_all
  have rest: "0 \<le> sum_list (map cols ms)"
    by (rule sum_cols_nonneg) (use Cons.prems(2) in simp)
  have "c + cols m < 2 ^ 63" using Cons.prems(4) rest by simp
  then have step: "add64 c (Cols m) = c + cols m"
    using Cons.prems(3) m(2) by (simp add: add64_id Cols_def)
  have "for_list (\<lambda>m c. if r \<noteq> Rows m then Inl (DimensionMismatch [])
                         else Inr (add64 c (Cols m))) ms (c + cols m)
           = Inr (c + cols m + sum_list (map cols ms))"
    by (rule Cons.IH) (use Cons.prems m in \<open>simp_all add: add.assoc\<close>)
  then show ?case using m(1) step by (simp add: Rows_def add.assoc)
qed

lemma count_cols_mismatch:
  "\<exists>m \<in> set ms. rows m \<noteq> r \<Longrightarrow>
   for_list (\<lambda>m c. if r \<noteq> Rows m then Inl (DimensionMismatch [])
                  else Inr (add64 c (Cols m))) ms c
     = Inl (DimensionMismatch [])"
proof (induction ms arbitrary: c)
  case Nil
  then show ?case by simp
next
  case (Cons m ms)
  show ?case
  proof (cases "rows m = r")
    case True
    with Cons.prems have "\<exists>m \<in> set ms. rows m \<noteq> r" by auto
    from Cons.IH [OF this] True show ?thesis by (simp add: Rows_def)
  next
    case False
    then show ?thesis by (auto simp: Rows_def)
  qed
qed

lemma sum_cols_nat:
  "(\<And>m. m \<in> set ms \<Longrightarrow> 0 \<le> cols m) \<Longrightarrow>
   int (sum_list (map (\<lambda>m. nat (cols m)) ms)) = sum_list (map cols ms)"
  by (induction ms) simp_all

lemma ConcatenateCols_result:
  assumes ne: "ms \<noteq> []" and v: "\<And>m. m \<in> set ms \<Longrightarrow> valid m"
    and r: "\<And>m. m \<in> set ms \<Longrightarrow> rows m = r"
    and fitc: "sum_list (map cols ms) < 2 ^ 63" and fit: "r * sum_list (map cols ms) < 2 ^ 63"
  shows "ConcatenateCols ms = Inr \<lparr>rows = r, cols = sum_list (map cols ms),
           data = concat (map (\<lambda>i. concat (map (\<lambda>m. row m i) ms)) (map int [0..<nat r]))\<rparr>"
proof -
  let ?c = "sum_list (map cols ms)"
  from ne obtain m0 ms' where split: "ms = m0 # ms'" by (cases ms) auto
  have m0: "Rows m0 = r" "valid m0" using r [of m0] v [of m0] split by (simp_all add: Rows_def)
  have cs: "\<And>m. m \<in> set ms \<Longrightarrow> 0 \<le> cols m" using v by (simp add: valid_def)
  have count: "for_list (\<lambda>m c. if r \<noteq> Rows m then Inl (DimensionMismatch [])
                                else Inr (add64 c (Cols m))) ms 0 = Inr ?c"
    using count_cols_loop [of ms r 0, OF r cs] fitc by simp
  have "0 \<le> r" using m0 by (simp add: valid_def Rows_def)
  moreover have "0 \<le> ?c" by (rule sum_cols_nonneg) (rule cs)
  ultimately have "0 \<le> r * ?c" by simp
  then have "mul64 r ?c = r * ?c" using fit by (rule mul64_id)
  then have cap: "make_cap (mul64 r ?c) = Inr []"
    using \<open>0 \<le> r * ?c\<close> by (simp add: make_cap_def not_less)
  have rowloop: "for_list (\<lambda>m d. seq (slice (data m) (i * cols m) ((i + 1) * cols m))
                   (\<lambda>s. Inr (d @ s))) ms d = Inr (d @ concat (map (\<lambda>m. row m i) ms))"
    if i: "0 \<le> i" "i < r" for i d
  proof (rule for_list_collect)
    fix m :: Matrix and d :: "float64 list" assume "m \<in> set ms"
    then have m: "valid m" "rows m = r" by (rule v, rule r)
    from i m(2) have "nat i < nat (rows m)" "int (nat i) = i" by simp_all
    with slice_row [OF m(1) this(1)]
    show "seq (slice (data m) (i * cols m) ((i + 1) * cols m)) (\<lambda>s. Inr (d @ s))
            = Inr (d @ row m i)" by simp
  qed
  have loop: "for_range r (\<lambda>i. for_list (\<lambda>m d. seq (slice (data m) (i * cols m) ((i + 1) * cols m))
                   (\<lambda>s. Inr (d @ s))) ms) []
      = Inr ([] @ concat (map (\<lambda>i. concat (map (\<lambda>m. row m i) ms)) (map int [0..<nat r])))"
    by (rule for_range_collect) (rule rowloop)
  have "ConcatenateCols ms =
      seq (for_list (\<lambda>m c. if r \<noteq> Rows m then Inl (DimensionMismatch [])
                                else Inr (add64 c (Cols m))) ms 0) (\<lambda>c.
          seq (make_cap (mul64 r c)) (\<lambda>d0.
          seq (for_range r (\<lambda>i.
                 for_list (\<lambda>m d. seq (slice (data m) (i * cols m) ((i + 1) * cols m))
                                       (\<lambda>s. Inr (d @ s))) ms) d0) (\<lambda>d.
          Inr \<lparr>rows = r, cols = c, data = d\<rparr>)))"
    unfolding ConcatenateCols_def split m0(1) [symmetric] by simp
  also have "\<dots> = Inr \<lparr>rows = r, cols = ?c,
           data = concat (map (\<lambda>i. concat (map (\<lambda>m. row m i) ms)) (map int [0..<nat r]))\<rparr>"
    unfolding count seq_Inr cap loop by simp
  finally show ?thesis .
qed

lemma length_row_segments:
  assumes "\<And>m. m \<in> set ms \<Longrightarrow> valid m" "\<And>m. m \<in> set ms \<Longrightarrow> rows m = r" and "i < nat r"
  shows "length (concat (map (\<lambda>m. row m (int i)) ms)) = nat (sum_list (map cols ms))"
proof -
  have "length (concat (map (\<lambda>m. row m (int i)) ms)) = sum_list (map (\<lambda>m. nat (cols m)) ms)"
    using assms
  proof (induction ms)
    case Nil
    show ?case by simp
  next
    case (Cons m ms)
    have "valid m" "rows m = r" using Cons.prems(1,2) by simp_all
    then have "length (row m (int i)) = nat (cols m)" using Cons.prems(3) by (intro row_length) simp_all
    moreover have "length (concat (map (\<lambda>m. row m (int i)) ms)) = sum_list (map (\<lambda>m. nat (cols m)) ms)"
      by (rule Cons.IH) (use Cons.prems in simp_all)
    ultimately show ?case by simp
  qed
  moreover have "int (sum_list (map (\<lambda>m. nat (cols m)) ms)) = sum_list (map cols ms)"
    by (rule sum_cols_nat) (use assms(1) in \<open>simp add: valid_def\<close>)
  ultimately show ?thesis by simp
qed

lemma SliceCols_rows:
  assumes m: "valid m" and ft: "0 \<le> f" "f \<le> t" "t \<le> cols m"
  obtains s where "SliceCols m f t = Inr s" "valid s" "rows s = rows m" "cols s = t - f"
    "\<And>i. 0 \<le> i \<Longrightarrow> i < rows m \<Longrightarrow> row s i = take (nat (t - f)) (drop (nat f) (row m i))"
proof -
  let ?g = "\<lambda>i. take (nat (t - f)) (drop (nat f) (row m (int i)))"
  let ?s = "\<lparr>rows = rows m, cols = t - f, data = concat (map ?g [0..<nat (rows m)])\<rparr>"
  have res: "SliceCols m f t = Inr ?s"
    using SliceCols_result [OF m ft] by (simp add: comp_def)
  moreover have "valid ?s" using SliceCols_valid [OF m ft] res by simp
  moreover have "row ?s i = take (nat (t - f)) (drop (nat f) (row m i))"
    if i: "0 \<le> i" "i < rows m" for i
  proof -
    from i have n: "nat i < nat (rows m)" "int (nat i) = i" by simp_all
    have seg: "length (?g j) = nat (t - f)" if "j < nat (rows m)" for j
      using row_length [OF m that] ft by simp
    have "cols ?s = int (nat (t - f))" using ft by simp
    from row_nat [OF this, of "nat i"]
    have "row ?s i = take (nat (t - f)) (drop (nat i * nat (t - f)) (data ?s))"
      using n(2) by simp
    also have "\<dots> = ?g (nat i)"
      using segment_of_concat [of "nat (rows m)" ?g "nat (t - f)" "nat i", OF seg n(1)] by simp
    finally show ?thesis using n(2) by simp
  qed
  ultimately show thesis using that [of ?s] by simp
qed

lemma ConcatenateRows_pair:
  assumes c: "cols u = cols d" and r: "0 \<le> rows u" "0 \<le> rows d" "rows u + rows d < 2 ^ 63"
    and n: "0 \<le> (rows u + rows d) * cols u" "(rows u + rows d) * cols u < 2 ^ 63"
  shows "ConcatenateRows [u, d] = Inr \<lparr>rows = rows u + rows d, cols = cols u, data = data u @ data d\<rparr>"
proof -
  have "add64 0 (rows u) = rows u" using r by (simp add: add64_id)
  moreover have "add64 (rows u) (rows d) = rows u + rows d" using r by (simp add: add64_id)
  moreover have "mul64 (rows u + rows d) (cols u) = (rows u + rows d) * cols u"
    using n by (rule mul64_id)
  ultimately show ?thesis
    using c n(1) by (simp add: ConcatenateRows_def Rows_def Cols_def make_cap_def not_less)
qed

subsection \<open>Results of the other operations\<close>

lemma copy_same_length: "length dst = length src \<Longrightarrow> copy dst src = src"
  by (simp add: copy_def)

lemma length_copy [simp]: "length (copy dst src) = length dst"
  by (simp add: copy_def Let_def)

lemma make_len_nonneg: "0 \<le> n \<Longrightarrow> make_len n = Inr (replicate (nat n) 0)"
  by (simp add: make_len_def)

lemma FromSlice_result:
  assumes "int (length d) = mul64 r c"
  shows "FromSlice r c d = Inr \<lparr>rows = r, cols = c, data = d\<rparr>"
proof -
  have "make_len (int (length d)) = Inr (replicate (length d) 0)" by (simp add: make_len_def)
  moreover have "copy (replicate (length d) 0) d = d" by (rule copy_same_length) simp
  ultimately show ?thesis using assms by (simp add: FromSlice_def)
qed

lemma Clone_result:
  assumes "valid m" and fit: "rows m * cols m < 2 ^ 63"
  shows "Clone m = Inr m"
proof -
  have rc: "0 \<le> rows m" "0 \<le> cols m" and len: "int (length (data m)) = rows m * cols m"
    using assms by (simp_all add: valid_def)
  have "length (replicate (nat (rows m * cols m)) (0::float64)) = length (data m)"
    using len by simp
  then have "copy (replicate (nat (rows m * cols m)) 0) (data m) = data m"
    by (rule copy_same_length)
  then show ?thesis using New_nonneg [OF rc fit] by (simp add: Clone_def)
qed

lemma set'_valid:
  assumes "valid m" "0 \<le> i" "i < rows m" "0 \<le> j" "j < cols m"
  shows "\<exists>m'. set' m i j x = Inr m' \<and> valid m' \<and> rows m' = rows m \<and> cols m' = cols m"
proof -
  have len: "int (length (data m)) = rows m * cols m" using assms(1) by (simp add: valid_def)
  from set'_cell [OF len assms(2-5), of x]
  obtain m' where "set' m i j x = Inr m'" "rows m' = rows m" "cols m' = cols m"
    "length (data m') = length (data m)" by blast
  then show ?thesis using assms(1) by (simp add: valid_def)
qed

lemma Set_valid:
  assumes "valid m" "0 \<le> i" "i < rows m" "0 \<le> j" "j < cols m" and fit: "rows m * cols m < 2 ^ 63"
  shows "\<exists>m'. Set m i j x = Inr m' \<and> valid m' \<and> rows m' = rows m \<and> cols m' = cols m"
  using set'_valid [OF assms(1-5), of x] Clone_result [OF assms(1) fit] assms(2-5)
  by (simp add: Set_def checkPos_def)

lemma Map_result:
  assumes "valid m" and fit: "rows m * cols m < 2 ^ 63"
  shows "Map f m = Inr (m\<lparr>data := map f (data m)\<rparr>)"
proof -
  let ?n = "length (data m)"
  let ?body = "\<lambda>i r. seq (index (data r) i) (\<lambda>v.
                 seq (assign (data r) i (f v)) (\<lambda>d. Inr (r\<lparr>data := d\<rparr>)))"
  let ?P = "\<lambda>k r. r = m\<lparr>data := map f (take (nat k) (data m)) @ drop (nat k) (data m)\<rparr>"
  have "\<exists>r. for_range (int ?n) ?body m = Inr r \<and> ?P (int ?n) r"
  proof (rule for_range_invariant [where P = ?P])
    show "0 \<le> int ?n" by simp
    show "?P 0 m" by simp
  next
    fix k r assume k: "0 \<le> k" "k < int ?n" and r: "?P k r"
    let ?k = "nat k"
    have kn: "?k < ?n" "int ?k = k" using k by simp_all
    let ?d = "map f (take ?k (data m)) @ drop ?k (data m)"
    have ld: "length ?d = ?n" using kn by simp
    have "?d ! ?k = data m ! ?k" using kn by (simp add: nth_append)
    then have ix: "index ?d k = Inr (data m ! ?k)" using k ld by (simp add: index_def)
    have st: "assign ?d k (f (data m ! ?k)) = Inr (?d[?k := f (data m ! ?k)])"
      using k ld by (simp add: assign_def)
    have upd: "?d[?k := f (data m ! ?k)]
        = map f (take (nat (k + 1)) (data m)) @ drop (nat (k + 1)) (data m)"
    proof -
      have "nat (k + 1) = Suc ?k" using k by simp
      moreover have "take (Suc ?k) (data m) = take ?k (data m) @ [data m ! ?k]"
        using kn by (simp add: take_Suc_conv_app_nth)
      moreover have "drop ?k (data m) = data m ! ?k # drop (Suc ?k) (data m)"
        using kn by (simp add: Cons_nth_drop_Suc)
      ultimately show ?thesis using kn by (simp add: list_update_append)
    qed
    have "?body k (m\<lparr>data := ?d\<rparr>) = Inr (m\<lparr>data := ?d[?k := f (data m ! ?k)]\<rparr>)"
      by (simp add: ix st)
    then show "\<exists>t'. ?body k r = Inr t' \<and> ?P (k + 1) t'"
      unfolding r upd by simp
  qed
  then have "for_range (int ?n) ?body m = Inr (m\<lparr>data := map f (data m)\<rparr>)" by simp
  then show ?thesis using Clone_result [OF assms] by (simp add: Map_def)
qed

lemma FromFunc_cells:
  assumes r: "0 \<le> r" and c: "0 \<le> c" and fit: "r * c < 2 ^ 63"
  shows "\<exists>m. FromFunc r c f = Inr m \<and> valid m \<and> rows m = r \<and> cols m = c
           \<and> (\<forall>i j. 0 \<le> i \<and> i < r \<and> 0 \<le> j \<and> j < c \<longrightarrow> cell m i j = f i j)"
proof -
  let ?m = "\<lparr>rows = r, cols = c, data = replicate (nat (r * c)) 0\<rparr>"
  have "mul64 r c = r * c" using r c fit by (simp add: mul64_id)
  then have mk: "make_len (mul64 r c) = Inr (replicate (nat (r * c)) 0)"
    using r c by (simp add: make_len_nonneg)
  have len: "int (length (data ?m)) = rows ?m * cols ?m" using r c by simp
  from fill_cells [of ?m "\<lambda>i j. Inr (f i j)" f, OF len] r c
  obtain m where "for_range r (\<lambda>i. for_range c (\<lambda>j t. set' t i j (f i j))) ?m = Inr m"
    "rows m = r" "cols m = c" "length (data m) = length (data ?m)"
    "\<forall>i j. 0 \<le> i \<and> i < r \<and> 0 \<le> j \<and> j < c \<longrightarrow> cell m i j = f i j"
    by auto
  then show ?thesis using mk r c by (simp add: FromFunc_def valid_def)
qed

lemma sum_rows_nonneg:
  "(\<And>m. m \<in> set ms \<Longrightarrow> 0 \<le> rows m) \<Longrightarrow> 0 \<le> sum_list (map rows ms)"
  by (induction ms) simp_all

lemma count_rows_loop:
  assumes "\<And>m. m \<in> set ms \<Longrightarrow> cols m = c" and "\<And>m. m \<in> set ms \<Longrightarrow> 0 \<le> rows m"
    and "0 \<le> r" and "r + sum_list (map rows ms) < 2 ^ 63"
  shows "for_list (\<lambda>m r. if c \<noteq> Cols m then Inl (DimensionMismatch [])
                         else Inr (add64 r (Rows m))) ms r
           = Inr (r + sum_list (map rows ms))"
  using assms
proof (induction ms arbitrary: r)
  case Nil
  show ?case by simp
next
  case (Cons m ms)
  have m: "cols m = c" "0 \<le> rows m" using Cons.prems(1,2) by simp_all
  have rest: "0 \<le> sum_list (map rows ms)"
    by (rule sum_rows_nonneg) (use Cons.prems(2) in simp)
  have "r + rows m < 2 ^ 63" using Cons.prems(4) rest by simp
  then have step: "add64 r (Rows m) = r + rows m"
    using Cons.prems(3) m(2) by (simp add: add64_id Rows_def)
  have "for_list (\<lambda>m r. if c \<noteq> Cols m then Inl (DimensionMismatch [])
                         else Inr (add64 r (Rows m))) ms (r + rows m)
           = Inr (r + rows m + sum_list (map rows ms))"
    by (rule Cons.IH) (use Cons.prems m in \<open>simp_all add: add.assoc\<close>)
  then show ?case using m(1) step by (simp add: Cols_def add.assoc)
qed

lemma length_concat_data:
  "(\<And>m. m \<in> set ms \<Longrightarrow> int (length (data m)) = rows m * c) \<Longrightarrow>
   int (length (concat (map data ms))) = sum_list (map rows ms) * c"
  by (induction ms) (simp_all add: algebra_simps)

lemma ConcatenateRows_valid:
  assumes ne: "ms \<noteq> []" and v: "\<And>m. m \<in> set ms \<Longrightarrow> valid m"
    and c: "\<And>m. m \<in> set ms \<Longrightarrow> cols m = c"
    and fitr: "sum_list (map rows ms) < 2 ^ 63" and fit: "sum_list (map rows ms) * c < 2 ^ 63"
  shows "ConcatenateRows ms = Inr \<lparr>rows = sum_list (map rows ms), cols = c,
           data = concat (map data ms)\<rparr>"
    and "valid \<lparr>rows = sum_list (map rows ms), cols = c, data = concat (map data ms)\<rparr>"
proof -
  let ?r = "sum_list (map rows ms)"
  from ne obtain m0 ms' where split: "ms = m0 # ms'" by (cases ms) auto
  have m0: "Cols m0 = c" "valid m0" using c [of m0] v [of m0] split by (simp_all add: Cols_def)
  have rs: "\<And>m. m \<in> set ms \<Longrightarrow> 0 \<le> rows m" using v by (simp add: valid_def)
  have count: "for_list (\<lambda>m r. if c \<noteq> Cols m then Inl (DimensionMismatch [])
                                else Inr (add64 r (Rows m))) ms 0 = Inr ?r"
    using count_rows_loop [of ms c 0, OF c rs] fitr by simp
  have r0: "0 \<le> ?r" by (rule sum_rows_nonneg) (rule rs)
  have c0: "0 \<le> c" using m0 by (simp add: valid_def Cols_def)
  have "0 \<le> ?r * c" using r0 c0 by simp
  then have "mul64 ?r c = ?r * c" using fit by (rule mul64_id)
  then have cap: "make_cap (mul64 ?r c) = Inr []"
    using \<open>0 \<le> ?r * c\<close> by (simp add: make_cap_def not_less)
  have loop: "for_list (\<lambda>m d. Inr (d @ data m)) ms [] = Inr ([] @ concat (map data ms))"
    by (rule for_list_collect) simp
  have "ConcatenateRows ms =
      seq (for_list (\<lambda>m r. if c \<noteq> Cols m then Inl (DimensionMismatch [])
                                else Inr (add64 r (Rows m))) ms 0) (\<lambda>r.
          seq (make_cap (mul64 r c)) (\<lambda>d0.
          seq (for_list (\<lambda>m d. Inr (d @ data m)) ms d0) (\<lambda>d.
          Inr \<lparr>rows = r, cols = c, data = d\<rparr>)))"
    unfolding ConcatenateRows_def split m0(1) [symmetric] by simp
  also have "\<dots> = Inr \<lparr>rows = ?r, cols = c, data = concat (map data ms)\<rparr>"
    unfolding count seq_Inr cap loop by simp
  finally show "ConcatenateRows ms = Inr \<lparr>rows = ?r, cols = c, data = concat (map data ms)\<rparr>" .
  have "int (length (concat (map data ms))) = ?r * c"
  proof (rule length_concat_data)
    fix m assume "m \<in> set ms"
    then have "valid m" "cols m = c" by (rule v, rule c)
    then show "int (length (data m)) = rows m * c" by (simp add: valid_def)
  qed
  then show "valid \<lparr>rows = ?r, cols = c, data = concat (map data ms)\<rparr>"
    using r0 c0 by (simp add: valid_def)
qed

lemma length_concat_rows:
  "(\<And>i. i \<in> set xs \<Longrightarrow> length (row m i) = c) \<Longrightarrow>
   length (concat (map (row m) xs)) = length xs * c"
  by (induction xs) simp_all

lemma FilterRows_result:
  assumes m: "valid m"
  shows "FilterRows m f = Inr \<lparr>rows = int (length (kept m f)), cols = cols m,
           data = concat (map (row m) (kept m f))\<rparr>"
proof -
  let ?body = "\<lambda>i (r, d). if f i then seq (slice (data m) (i * Cols m) ((i + 1) * cols m))
                            (\<lambda>s. Inr (r + 1, d @ s)) else Inr (r, d)"
  let ?ks = "\<lambda>n. filter f (map int [0..<nat n])"
  let ?P = "\<lambda>n s. s = (int (length (?ks n)), concat (map (row m) (?ks n)))"
  have "\<exists>s. for_range (rows m) ?body (0, []) = Inr s \<and> ?P (rows m) s"
  proof (rule for_range_invariant [where P = ?P])
    show "0 \<le> rows m" using m by (simp add: valid_def)
    show "?P 0 (0, [])" by simp
  next
    fix i s assume i: "0 \<le> i" "i < rows m" and s: "?P i s"
    have n: "nat i < nat (rows m)" "int (nat i) = i" using i by simp_all
    have sl: "slice (data m) (i * Cols m) ((i + 1) * cols m) = Inr (row m i)"
      using slice_row [OF m n(1)] n(2) by (simp add: Cols_def)
    have ks: "?ks (i + 1) = ?ks i @ (if f i then [i] else [])"
      using i by (simp add: nat_add_distrib)
    show "\<exists>t'. ?body i s = Inr t' \<and> ?P (i + 1) t'"
      unfolding s ks using sl by simp
  qed
  then show ?thesis by (simp add: FilterRows_def kept_def Cols_def)
qed

lemma FilterRows_valid:
  assumes m: "valid m"
  shows "valid \<lparr>rows = int (length (kept m f)), cols = cols m, data = concat (map (row m) (kept m f))\<rparr>"
proof -
  have "length (concat (map (row m) (kept m f))) = length (kept m f) * nat (cols m)"
  proof (rule length_concat_rows)
    fix i assume "i \<in> set (kept m f)"
    then have "nat i < nat (rows m)" "int (nat i) = i" by (auto simp: kept_def)
    with row_length [OF m this(1)] show "length (row m i) = nat (cols m)" by simp
  qed
  moreover have "0 \<le> cols m" using m by (simp add: valid_def)
  ultimately show ?thesis by (simp add: valid_def)
qed

lemma T_cells:
  assumes m: "valid m"
  shows "\<exists>t. T m = Inr t \<and> valid t \<and> rows t = cols m \<and> cols t = rows m
           \<and> (\<forall>i j. 0 \<le> i \<and> i < rows m \<and> 0 \<le> j \<and> j < cols m \<longrightarrow> cell t j i = cell m i j)"
proof -
  let ?t = "\<lparr>rows = cols m, cols = rows m, data = replicate (length (data m)) 0\<rparr>"
  have rc: "0 \<le> rows m" "0 \<le> cols m" and len: "int (length (data m)) = rows m * cols m"
    using m by (simp_all add: valid_def)
  have mk: "make_len (int (length (data m))) = Inr (replicate (length (data m)) 0)"
    by (simp add: make_len_def)
  have lent: "int (length (data ?t)) = rows ?t * cols ?t" using len by (simp add: mult.commute)
  have "\<exists>t. for_range (rows m) (\<lambda>i. for_range (cols m)
          (\<lambda>j t. seq (at m i j) (\<lambda>p. set' t j i p))) ?t = Inr t
        \<and> rows t = rows ?t \<and> cols t = cols ?t \<and> length (data t) = length (data ?t)
        \<and> (\<forall>i j. 0 \<le> i \<and> i < rows m \<and> 0 \<le> j \<and> j < cols m \<longrightarrow> cell t j i = cell m i j)"
  proof (rule fill_positions [where pi = "\<lambda>i j. j" and pj = "\<lambda>i j. i", OF lent _ _ _ rc])
    fix i j assume "0 \<le> i" "i < rows m" "0 \<le> j" "j < cols m"
    then show "at m i j = Inr (cell m i j)" by (rule at_cell [OF len])
  qed simp_all
  then obtain t where t: "for_range (rows m) (\<lambda>i. for_range (cols m)
          (\<lambda>j t. seq (at m i j) (\<lambda>p. set' t j i p))) ?t = Inr t"
    "rows t = cols m" "cols t = rows m" "length (data t) = length (data m)"
    "\<forall>i j. 0 \<le> i \<and> i < rows m \<and> 0 \<le> j \<and> j < cols m \<longrightarrow> cell t j i = cell m i j"
    by auto
  have "valid t" using t(2-4) rc len by (simp add: valid_def mult.commute)
  with t mk show ?thesis by (simp add: T_def)
qed

lemma dotApply_cells:
  assumes a: "valid a" and b: "valid b" and d: "rows a = rows b" "cols a = cols b"
    and fit: "rows a * cols a < 2 ^ 63"
  shows "\<exists>c. dotApply f a b = Inr c \<and> valid c \<and> rows c = rows a \<and> cols c = cols a
           \<and> (\<forall>i j. 0 \<le> i \<and> i < rows a \<and> 0 \<le> j \<and> j < cols a \<longrightarrow>
                 cell c i j = f (cell a i j) (cell b i j))"
proof -
  let ?c = "\<lparr>rows = rows a, cols = cols a, data = replicate (nat (rows a * cols a)) 0\<rparr>"
  let ?val = "\<lambda>i j. seq (at a i j) (\<lambda>x. seq (at b i j) (\<lambda>y. Inr (f x y)))"
  have rc: "0 \<le> rows a" "0 \<le> cols a" and lena: "int (length (data a)) = rows a * cols a"
    and lenb: "int (length (data b)) = rows b * cols b"
    using a b by (simp_all add: valid_def)
  have new: "New (rows a) (cols a) = Inr ?c" using rc fit by (rule New_nonneg)
  have len: "int (length (data ?c)) = rows ?c * cols ?c" using rc by simp
  have "\<exists>c. for_range (rows ?c) (\<lambda>i. for_range (cols ?c)
          (\<lambda>j t. seq (?val i j) (\<lambda>p. set' t i j p))) ?c = Inr c
        \<and> rows c = rows ?c \<and> cols c = cols ?c \<and> length (data c) = length (data ?c)
        \<and> (\<forall>i j. 0 \<le> i \<and> i < rows ?c \<and> 0 \<le> j \<and> j < cols ?c \<longrightarrow>
              cell c i j = f (cell a i j) (cell b i j))"
  proof (rule fill_cells [OF len])
    fix i j assume ij: "0 \<le> i" "i < rows ?c" "0 \<le> j" "j < cols ?c"
    then have "at a i j = Inr (cell a i j)" by (intro at_cell [OF lena]) simp_all
    moreover have "at b i j = Inr (cell b i j)" using ij d by (intro at_cell [OF lenb]) simp_all
    ultimately show "?val i j = Inr (f (cell a i j) (cell b i j))" by simp
  qed (use rc in simp_all)
  then obtain c where c: "for_range (rows a) (\<lambda>i. for_range (cols a)
          (\<lambda>j t. seq (at a i j) (\<lambda>x. seq (at b i j) (\<lambda>y. set' t i j (f x y))))) ?c = Inr c"
    "rows c = rows a" "cols c = cols a" "length (data c) = length (data ?c)"
    "\<forall>i j. 0 \<le> i \<and> i < rows a \<and> 0 \<le> j \<and> j < cols a \<longrightarrow> cell c i j = f (cell a i j) (cell b i j)"
    by (auto simp: seq_assoc)
  have "valid c" using c(2-4) rc by (simp add: valid_def)
  with c new d show ?thesis by (simp add: dotApply_def)
qed

lemma BlasProduct_valid:
  assumes a: "valid a" and b: "valid b"
    and g: "gemm NoTrans NoTrans float_one (generalFromMat a) (generalFromMat b) 0
              (generalFromMat \<lparr>rows = rows a, cols = cols b,
                 data = replicate (nat (rows a * cols b)) 0\<rparr>) = Inr d"
    and fit: "rows a * cols b < 2 ^ 63"
  shows "\<exists>c. BlasProduct gemm a b = Inr c \<and> valid c \<and> rows c = rows a \<and> cols c = cols b"
proof -
  have rc: "0 \<le> rows a" "0 \<le> cols b" using a b by (simp_all add: valid_def)
  from New_nonneg [OF rc fit] g rc show ?thesis
    by (simp add: BlasProduct_def Rows_def Cols_def valid_def)
qed

subsection \<open>Steps of the parallel product\<close>

lemma par_inv_cell:
  "par_inv fadd fmul a b st \<Longrightarrow> i < nat (rows a) \<Longrightarrow> 0 \<le> j \<Longrightarrow> j < next_col st ! i \<Longrightarrow>
   cell (out st) (int i) j = dot fadd fmul a b (int i) j"
  by (simp add: par_inv_def)

lemma matrix_eq_cells:
  assumes a: "valid a" and b: "valid b" and r: "rows a = rows b" and c: "cols a = cols b"
    and cells: "\<forall>i j. 0 \<le> i \<and> i < rows a \<and> 0 \<le> j \<and> j < cols a \<longrightarrow> cell a i j = cell b i j"
  shows "a = b"
proof -
  have "length (data a) = length (data b)" using a b r c by (simp add: valid_def)
  moreover have "\<forall>k < length (data a). data a ! k = data b ! k"
    using cells_buffer [OF a b r c, of "(=)"] cells by simp
  ultimately have "data a = data b" by (simp add: nth_equalityI)
  with r c show ?thesis by simp
qed

lemma row_task_step_inv:
  assumes a: "valid a" and b: "valid b" and ab: "cols a = rows b"
    and st: "par_inv fadd fmul a b st"
  shows "\<exists>st'. row_task_step fadd fmul a b i st = Inr st' \<and> par_inv fadd fmul a b st'
           \<and> (\<forall>i' < nat (rows a). next_col st ! i' \<le> next_col st' ! i')
           \<and> (i < nat (rows a) \<longrightarrow> min (cols b) (next_col st ! i + 1) \<le> next_col st' ! i)"
proof (cases "i < length (next_col st) \<and> next_col st ! i < cols b")
  case False
  then have "row_task_step fadd fmul a b i st = Inr st" by (auto simp: row_task_step_def)
  moreover have "i < nat (rows a) \<longrightarrow> min (cols b) (next_col st ! i + 1) \<le> next_col st ! i"
    using False st by (auto simp: par_inv_def)
  ultimately show ?thesis using st by simp
next
  case True
  let ?j = "next_col st ! i"
  let ?nc = "(next_col st)[i := ?j + 1]"
  from st have sh: "rows (out st) = rows a" "cols (out st) = cols b"
    "int (length (data (out st))) = rows a * cols b" "length (next_col st) = nat (rows a)"
    and each: "\<And>i'. i' < nat (rows a) \<Longrightarrow> 0 \<le> next_col st ! i' \<and> next_col st ! i' \<le> cols b
          \<and> (\<forall>j. 0 \<le> j \<and> j < next_col st ! i' \<longrightarrow>
                cell (out st) (int i') j = dot fadd fmul a b (int i') j)"
    by (simp_all add: par_inv_def)
  from True sh(4) have i: "i < nat (rows a)" by simp
  then have ii: "0 \<le> int i" "int i < rows a" by simp_all
  have j: "0 \<le> ?j" "?j < cols b" using each [OF i] True by simp_all
  have p: "inner fadd fmul a b (int i) ?j = Inr (dot fadd fmul a b (int i) ?j)"
    using a b ab ii j by (rule inner_dot)
  have len: "int (length (data (out st))) = rows (out st) * cols (out st)" using sh by simp
  have ij: "int i < rows (out st)" "?j < cols (out st)" using ii j sh by simp_all
  from set'_cell [OF len ii(1) ij(1) j(1) ij(2), of "dot fadd fmul a b (int i) ?j"]
  obtain c where c: "set' (out st) (int i) ?j (dot fadd fmul a b (int i) ?j) = Inr c"
    "rows c = rows (out st)" "cols c = cols (out st)" "length (data c) = length (data (out st))"
    "\<And>i' j'. 0 \<le> i' \<Longrightarrow> 0 \<le> j' \<Longrightarrow> j' < cols (out st) \<Longrightarrow>
       cell c i' j' = (if i' = int i \<and> j' = ?j then dot fadd fmul a b (int i) ?j
                       else cell (out st) i' j')"
    by auto
  let ?st' = "\<lparr>out = c, next_col = ?nc\<rparr>"
  have res: "row_task_step fadd fmul a b i st = Inr ?st'"
    using True p c(1) by (simp add: row_task_step_def)
  have nc: "?nc ! i' = (if i' = i then ?j + 1 else next_col st ! i')" if "i' < nat (rows a)" for i'
    using that sh(4) by (simp add: nth_list_update)
  have "par_inv fadd fmul a b ?st'"
    unfolding par_inv_def
  proof (intro conjI allI impI)
    show "rows (out ?st') = rows a" "cols (out ?st') = cols b"
      "int (length (data (out ?st'))) = rows a * cols b" "length (next_col ?st') = nat (rows a)"
      using c(2-4) sh by simp_all
  next
    fix i' assume i': "i' < nat (rows a)"
    show "0 \<le> next_col ?st' ! i'" "next_col ?st' ! i' \<le> cols b"
      using nc [OF i'] each [OF i'] j by (auto split: if_splits)
  next
    fix i' j' assume i': "i' < nat (rows a)" and j': "0 \<le> j' \<and> j' < next_col ?st' ! i'"
    have le: "next_col ?st' ! i' \<le> cols b"
      using nc [OF i'] each [OF i'] j by (auto split: if_splits)
    then have jc: "j' < cols (out st)" using j' sh by simp
    have cc: "cell c (int i') j' = (if int i' = int i \<and> j' = ?j then dot fadd fmul a b (int i) ?j
                       else cell (out st) (int i') j')"
      using c(5) [of "int i'" j'] j' jc by simp
    show "cell (out ?st') (int i') j' = dot fadd fmul a b (int i') j'"
    proof (cases "i' = i \<and> j' = ?j")
      case True
      then show ?thesis using cc by simp
    next
      case False
      then have "j' < next_col st ! i'" using j' nc [OF i'] by (auto split: if_splits)
      then have "cell (out st) (int i') j' = dot fadd fmul a b (int i') j'"
        using each [OF i'] j' by simp
      then show ?thesis using cc False by auto
    qed
  qed
  moreover have "\<forall>i' < nat (rows a). next_col st ! i' \<le> next_col ?st' ! i'"
    using nc by simp
  moreover have "min (cols b) (?j + 1) \<le> next_col ?st' ! i" using nc [OF i] by simp
  ultimately show ?thesis using res by simp
qed

lemma run_inv:
  assumes a: "valid a" and b: "valid b" and ab: "cols a = rows b"
  shows "par_inv fadd fmul a b st \<Longrightarrow>
         \<exists>st'. for_list (row_task_step fadd fmul a b) xs st = Inr st' \<and> par_inv fadd fmul a b st'
           \<and> (\<forall>i' < nat (rows a). next_col st ! i' \<le> next_col st' ! i')"
proof (induction xs arbitrary: st)
  case Nil
  then show ?case by simp
next
  case (Cons x xs)
  from row_task_step_inv [OF a b ab Cons.prems, of x]
  obtain st1 where st1: "row_task_step fadd fmul a b x st = Inr st1" "par_inv fadd fmul a b st1"
    "\<forall>i' < nat (rows a). next_col st ! i' \<le> next_col st1 ! i'" by blast
  from Cons.IH [OF st1(2)]
  obtain st2 where st2: "for_list (row_task_step fadd fmul a b) xs st1 = Inr st2"
    "par_inv fadd fmul a b st2" "\<forall>i' < nat (rows a). next_col st1 ! i' \<le> next_col st2 ! i'"
    by blast
  have "\<forall>i' < nat (rows a). next_col st ! i' \<le> next_col st2 ! i'"
    using st1(3) st2(3) by (meson order_trans)
  with st1(1) st2(1,2) show ?case by simp
qed

lemma run_task:
  assumes a: "valid a" and b: "valid b" and ab: "cols a = rows b" and i: "i < nat (rows a)"
  shows "par_inv fadd fmul a b st \<Longrightarrow>
         \<exists>st'. for_list (row_task_step fadd fmul a b) (replicate n i) st = Inr st'
           \<and> par_inv fadd fmul a b st'
           \<and> (\<forall>i' < nat (rows a). next_col st ! i' \<le> next_col st' ! i')
           \<and> min (cols b) (next_col st ! i + int n) \<le> next_col st' ! i"
proof (induction n arbitrary: st)
  case 0
  then have "next_col st ! i \<le> cols b" using i by (simp add: par_inv_def)
  with 0 show ?case by simp
next
  case (Suc n)
  from row_task_step_inv [OF a b ab Suc.prems, of i] i
  obtain st1 where st1: "row_task_step fadd fmul a b i st = Inr st1" "par_inv fadd fmul a b st1"
    "\<forall>i' < nat (rows a). next_col st ! i' \<le> next_col st1 ! i'"
    "min (cols b) (next_col st ! i + 1) \<le> next_col st1 ! i" by blast
  from Suc.IH [OF st1(2)]
  obtain st2 where st2: "for_list (row_task_step fadd fmul a b) (replicate n i) st1 = Inr st2"
    "par_inv fadd fmul a b st2" "\<forall>i' < nat (rows a). next_col st1 ! i' \<le> next_col st2 ! i'"
    "min (cols b) (next_col st1 ! i + int n) \<le> next_col st2 ! i"
    by blast
  have "\<forall>i' < nat (rows a). next_col st ! i' \<le> next_col st2 ! i'"
    using st1(3) st2(3) by (meson order_trans)
  moreover have "min (cols b) (next_col st ! i + int (Suc n)) \<le> next_col st2 ! i"
    using st1(4) st2(4) by auto
  ultimately show ?case using st1(1) st2(1,2) by simp
qed

lemma run_wait:
  assumes a: "valid a" and b: "valid b" and ab: "cols a = rows b"
  shows "par_inv fadd fmul a b st \<Longrightarrow> k \<le> nat (rows a) \<Longrightarrow>
         \<exists>st'. for_list (row_task_step fadd fmul a b)
                  (concat (map (\<lambda>i. replicate (nat (cols b)) i) [0..<k])) st = Inr st'
           \<and> par_inv fadd fmul a b st'
           \<and> (\<forall>i < k. next_col st' ! i = cols b)"
proof (induction k)
  case 0
  then show ?case by simp
next
  case (Suc k)
  then obtain st1 where st1: "for_list (row_task_step fadd fmul a b)
                  (concat (map (\<lambda>i. replicate (nat (cols b)) i) [0..<k])) st = Inr st1"
    "par_inv fadd fmul a b st1" "\<forall>i < k. next_col st1 ! i = cols b"
    by auto
  have k: "k < nat (rows a)" using Suc.prems(2) by simp
  from run_task [OF a b ab k st1(2), of "nat (cols b)"]
  obtain st2 where st2: "for_list (row_task_step fadd fmul a b) (replicate (nat (cols b)) k) st1 = Inr st2"
    "par_inv fadd fmul a b st2" "\<forall>i' < nat (rows a). next_col st1 ! i' \<le> next_col st2 ! i'"
    "min (cols b) (next_col st1 ! k + int (nat (cols b))) \<le> next_col st2 ! k"
    by blast
  have bound: "\<And>i. i < nat (rows a) \<Longrightarrow> next_col st2 ! i \<le> cols b"
    using st2(2) by (simp add: par_inv_def)
  have "0 \<le> next_col st1 ! k" "0 \<le> cols b" using st1(2) k b by (simp_all add: par_inv_def valid_def)
  then have "cols b \<le> next_col st2 ! k" using st2(4) by simp
  then have here: "next_col st2 ! k = cols b" using bound [OF k] by simp
  have "next_col st2 ! i = cols b" if "i < Suc k" for i
  proof (cases "i = k")
    case True
    then show ?thesis using here by simp
  next
    case False
    with that have ik: "i < k" by simp
    then have "i < nat (rows a)" using k by simp
    then have "next_col st1 ! i \<le> next_col st2 ! i" "next_col st2 ! i \<le> cols b"
      using st2(3) bound by simp_all
    with st1(3) ik show ?thesis by simp
  qed
  then show ?case using st1(1) st2(1,2) by (simp add: for_list_append)
qed

text \<open>When the size that \<open>New\<close> computes for the result wraps around, to fewer cells than
  \<open>a.rows * b.cols\<close>, the sequential and the parallel product both end in a panic of the
  runtime: \<open>New\<close> panics on a negative size, and otherwise the cell of the last row and the
  last column is not in the buffer, so a loop that ends without a panic has not written it.\<close>

lemma for_list_error:
  assumes "for_list body xs s = Inl e" and "\<And>x s e. body x s = Inl e \<Longrightarrow> P e"
  shows "P e"
  using assms(1)
proof (induction xs arbitrary: s)
  case Nil
  then show ?case by simp
next
  case (Cons x xs)
  show ?case
  proof (cases "body x s")
    case (Inl e')
    with Cons.prems have "e' = e" by simp
    with Inl assms(2) show ?thesis by blast
  next
    case (Inr t)
    with Cons.prems have "for_list body xs t = Inl e" by simp
    then show ?thesis by (rule Cons.IH)
  qed
qed

lemma for_list_success:
  assumes "for_list body xs s = Inr s'" and "I s"
    and "\<And>x s t. x \<in> set xs \<Longrightarrow> I s \<Longrightarrow> body x s = Inr t \<Longrightarrow> I t \<and> Q x"
  shows "I s' \<and> (\<forall>x \<in> set xs. Q x)"
  using assms
proof (induction xs arbitrary: s)
  case Nil
  then show ?case by simp
next
  case (Cons x xs)
  from Cons.prems(1) obtain t where t: "body x s = Inr t" "for_list body xs t = Inr s'"
    by (cases "body x s") simp_all
  from Cons.prems(3) [of x s t] Cons.prems(2) t(1) have xt: "I t" "Q x" by simp_all
  have "I s' \<and> (\<forall>x \<in> set xs. Q x)"
    by (rule Cons.IH [OF t(2) xt(1)]) (use Cons.prems(3) in auto)
  with xt(2) show ?case by simp
qed

lemma for_range_list: "for_range n body = for_list body (map int [0..<nat n])"
  by (rule ext) (simp add: for_range_def)

lemma seq_error: "seq m f = Inl e \<Longrightarrow> m = Inl e \<or> (\<exists>x. m = Inr x \<and> f x = Inl e)"
  by (cases m) simp_all

lemma seq_success: "seq m f = Inr y \<Longrightarrow> \<exists>x. m = Inr x \<and> f x = Inr y"
  by (cases m) simp_all

lemma at_error: "at m i j = Inl e \<Longrightarrow> e = RuntimePanic"
  by (simp add: at_def index_def split: if_splits)

lemma set'_error: "set' m i j x = Inl e \<Longrightarrow> e = RuntimePanic"
  by (auto simp: set'_def assign_def split: if_splits)

lemma set'_success:
  "set' m i j x = Inr t \<Longrightarrow>
   cols m * i + j < int (length (data m)) \<and> cols t = cols m \<and> length (data t) = length (data m)"
  by (auto simp: set'_def assign_def split: if_splits)

lemma inner_error: "inner fadd fmul a b i j = Inl e \<Longrightarrow> e = RuntimePanic"
  unfolding inner_def for_range_def
  by (erule for_list_error) (auto dest!: seq_error dest: at_error)

lemma cell_step_error:
  "seq (inner fadd fmul a b i j) (\<lambda>p. set' c i j p) = Inl e \<Longrightarrow> e = RuntimePanic"
  by (auto dest!: seq_error dest: inner_error set'_error)

lemma mem_range: "0 \<le> k \<Longrightarrow> k < n \<Longrightarrow> k \<in> set (map int [0..<nat n])"
  by (auto simp: image_iff intro!: bexI [of _ "nat k"])

lemma Product_overflow:
  assumes a: "valid a" and b: "valid b" and ab: "cols a = rows b"
    and big: "2 ^ 63 \<le> rows a * cols b"
  shows "Product fadd fmul a b = Inl RuntimePanic"
proof -
  let ?n = "mul64 (rows a) (cols b)"
  let ?body = "\<lambda>i j c. seq (inner fadd fmul a b i j) (\<lambda>p. set' c i j p)"
  have n: "?n < rows a * cols b"
    using wrap64_range(2) [of "rows a * cols b"] big by (simp add: mul64_def)
  have "0 \<le> rows a" "0 \<le> cols b" using a b by (simp_all add: valid_def)
  moreover have "0 < rows a * cols b" using big by (smt (verit) zero_less_power)
  ultimately have pos: "0 < rows a" "0 < cols b" by (auto simp: zero_less_mult_iff)
  show ?thesis
  proof (cases "?n < 0")
    case True
    then show ?thesis using ab by (simp add: Product_def New_def make_len_def)
  next
    case False
    let ?c0 = "\<lparr>rows = rows a, cols = cols b, data = replicate (nat ?n) 0\<rparr>"
    let ?loop = "for_list (\<lambda>i. for_list (?body i) (map int [0..<nat (cols b)]))
                   (map int [0..<nat (rows a)]) ?c0"
    let ?I = "\<lambda>c. cols c = cols b \<and> int (length (data c)) = ?n"
    have P: "Product fadd fmul a b = ?loop"
      using ab False by (simp add: Product_def New_def make_len_def for_range_list)
    show ?thesis
    proof (cases ?loop)
      case (Inl e)
      have "e = RuntimePanic"
        using Inl
      proof (rule for_list_error)
        fix i s e' assume "for_list (?body i) (map int [0..<nat (cols b)]) s = Inl e'"
        then show "e' = RuntimePanic"
          by (rule for_list_error) (rule cell_step_error)
      qed
      with Inl P show ?thesis by simp
    next
      case (Inr c')
      have "?I c' \<and> (\<forall>i \<in> set (map int [0..<nat (rows a)]).
                \<forall>j \<in> set (map int [0..<nat (cols b)]). cols b * i + j < ?n)"
        using Inr
      proof (rule for_list_success)
        show "?I ?c0" using False by simp
      next
        fix i s t
        assume s: "?I s" and t: "for_list (?body i) (map int [0..<nat (cols b)]) s = Inr t"
        show "?I t \<and> (\<forall>j \<in> set (map int [0..<nat (cols b)]). cols b * i + j < ?n)"
          using t s
        proof (rule for_list_success)
          fix j c d assume c: "?I c" and d: "?body i j c = Inr d"
          from seq_success [OF d] obtain p where "set' c i j p = Inr d" by blast
          from set'_success [OF this] c show "?I d \<and> cols b * i + j < ?n" by simp
        qed
      qed
      moreover have "rows a - 1 \<in> set (map int [0..<nat (rows a)])"
        "cols b - 1 \<in> set (map int [0..<nat (cols b)])"
        using pos by (auto intro!: mem_range simp del: set_map set_upt)
      ultimately have "cols b * (rows a - 1) + (cols b - 1) < ?n" by blast
      moreover have "cols b * (rows a - 1) + (cols b - 1) = rows a * cols b - 1"
        by (simp add: algebra_simps)
      ultimately show ?thesis using n by simp
    qed
  qed
qed

lemma count_list_replicate: "count_list (replicate n x) y = (if x = y then n else 0)"
  by (induction n) auto

lemma count_list_wait:
  "count_list (concat (map (\<lambda>i. replicate n i) [0..<k])) i = (if i < k then n else 0)"
  by (induction k) (simp_all add: count_list_replicate)

lemma row_task_step_error: "row_task_step fadd fmul a b i st = Inl e \<Longrightarrow> e = RuntimePanic"
  by (auto simp: row_task_step_def split: if_splits dest!: seq_error dest: inner_error set'_error)

lemma row_task_step_shape:
  assumes sh: "par_shape n a b st" and res: "row_task_step fadd fmul a b i st = Inr st'"
  shows "par_shape n a b st'
       \<and> (\<forall>i' < nat (rows a). next_col st ! i' \<le> next_col st' ! i')
       \<and> (i < nat (rows a) \<longrightarrow> min (cols b) (next_col st ! i + 1) \<le> next_col st' ! i)"
proof (cases "i < length (next_col st) \<and> next_col st ! i < cols b")
  case False
  then have "st' = st" using res by (auto simp: row_task_step_def)
  moreover have "i < nat (rows a) \<longrightarrow> min (cols b) (next_col st ! i + 1) \<le> next_col st ! i"
    using False sh by (auto simp: par_shape_def)
  ultimately show ?thesis using sh by simp
next
  case True
  let ?j = "next_col st ! i"
  let ?nc = "(next_col st)[i := ?j + 1]"
  from sh have s: "cols (out st) = cols b" "int (length (data (out st))) = n"
    "length (next_col st) = nat (rows a)"
    and each: "\<And>i'. i' < nat (rows a) \<Longrightarrow> 0 \<le> next_col st ! i' \<and> next_col st ! i' \<le> cols b
          \<and> (0 < next_col st ! i' \<longrightarrow> cols b * int i' + next_col st ! i' - 1 < n)"
    by (simp_all add: par_shape_def)
  from True s(3) have i: "i < nat (rows a)" by simp
  from res True obtain p c where c: "set' (out st) (int i) ?j p = Inr c"
    and st': "st' = \<lparr>out = c, next_col = ?nc\<rparr>"
    by (auto simp: row_task_step_def dest!: seq_success)
  from set'_success [OF c] s have w: "cols b * int i + ?j < n" "cols c = cols b"
    "int (length (data c)) = n" by simp_all
  have nc: "?nc ! i' = (if i' = i then ?j + 1 else next_col st ! i')" if "i' < nat (rows a)" for i'
    using that s(3) by (simp add: nth_list_update)
  have "par_shape n a b st'"
    unfolding par_shape_def st'
  proof (intro conjI allI impI)
    show "cols (out \<lparr>out = c, next_col = ?nc\<rparr>) = cols b"
      "int (length (data (out \<lparr>out = c, next_col = ?nc\<rparr>))) = n"
      "length (next_col \<lparr>out = c, next_col = ?nc\<rparr>) = nat (rows a)"
      using w s by simp_all
  next
    fix i' assume i': "i' < nat (rows a)"
    show "0 \<le> next_col \<lparr>out = c, next_col = ?nc\<rparr> ! i'"
      "next_col \<lparr>out = c, next_col = ?nc\<rparr> ! i' \<le> cols b"
      using nc [OF i'] each [OF i'] True by (auto split: if_splits)
    show "cols b * int i' + next_col \<lparr>out = c, next_col = ?nc\<rparr> ! i' - 1 < n"
      if "0 < next_col \<lparr>out = c, next_col = ?nc\<rparr> ! i'"
      using that nc [OF i'] each [OF i'] w(1) by (auto split: if_splits)
  qed
  moreover have "\<forall>i' < nat (rows a). next_col st ! i' \<le> next_col st' ! i'"
    using nc st' by simp
  moreover have "min (cols b) (?j + 1) \<le> next_col st' ! i" using nc [OF i] st' by simp
  ultimately show ?thesis by simp
qed

lemma run_shape:
  "par_shape n a b st \<Longrightarrow> for_list (row_task_step fadd fmul a b) xs st = Inr st' \<Longrightarrow>
   par_shape n a b st'
   \<and> (\<forall>i < nat (rows a). min (cols b) (next_col st ! i + int (count_list xs i)) \<le> next_col st' ! i)"
proof (induction xs arbitrary: st)
  case Nil
  then show ?case by (auto simp: par_shape_def)
next
  case (Cons x xs)
  from Cons.prems(2) obtain st1 where st1: "row_task_step fadd fmul a b x st = Inr st1"
    "for_list (row_task_step fadd fmul a b) xs st1 = Inr st'"
    by (cases "row_task_step fadd fmul a b x st") simp_all
  from row_task_step_shape [OF Cons.prems(1) st1(1)]
  have s1: "par_shape n a b st1" "\<And>i'. i' < nat (rows a) \<Longrightarrow> next_col st ! i' \<le> next_col st1 ! i'"
    "x < nat (rows a) \<Longrightarrow> min (cols b) (next_col st ! x + 1) \<le> next_col st1 ! x"
    by simp_all
  from Cons.IH [OF s1(1) st1(2)]
  have s2: "par_shape n a b st'"
    "\<And>i. i < nat (rows a) \<Longrightarrow> min (cols b) (next_col st1 ! i + int (count_list xs i)) \<le> next_col st' ! i"
    by simp_all
  have "min (cols b) (next_col st ! i + int (count_list (x # xs) i)) \<le> next_col st' ! i"
    if i: "i < nat (rows a)" for i
  proof (cases "x = i")
    case True
    with s1(3) i have "min (cols b) (next_col st ! i + 1) \<le> next_col st1 ! i" by simp
    with s2(2) [OF i] True show ?thesis by (simp add: min_def split: if_splits)
  next
    case False
    with s1(2) [OF i] s2(2) [OF i] show ?thesis by (simp add: min_def split: if_splits)
  qed
  with s2(1) show ?case by simp
qed

lemma ParallelProduct_overflow:
  assumes a: "valid a" and b: "valid b" and ab: "cols a = rows b"
    and big: "2 ^ 63 \<le> rows a * cols b"
  shows "ParallelProduct fadd fmul sched a b = Inl RuntimePanic"
proof -
  let ?n = "mul64 (rows a) (cols b)"
  have n: "?n < rows a * cols b"
    using wrap64_range(2) [of "rows a * cols b"] big by (simp add: mul64_def)
  have "0 \<le> rows a" "0 \<le> cols b" using a b by (simp_all add: valid_def)
  moreover have "0 < rows a * cols b" using big by (smt (verit) zero_less_power)
  ultimately have pos: "0 < rows a" "0 < cols b" by (auto simp: zero_less_mult_iff)
  show ?thesis
  proof (cases "?n < 0")
    case True
    then show ?thesis using ab by (simp add: ParallelProduct_def New_def make_len_def)
  next
    case False
    let ?st0 = "\<lparr>out = \<lparr>rows = rows a, cols = cols b, data = replicate (nat ?n) 0\<rparr>,
                 next_col = replicate (nat (rows a)) 0\<rparr>"
    let ?run = "for_list (row_task_step fadd fmul a b) (sched @ wait_all a b) ?st0"
    have P: "ParallelProduct fadd fmul sched a b = seq ?run (\<lambda>st. Inr (out st))"
      using ab False by (simp add: ParallelProduct_def New_def make_len_def)
    show ?thesis
    proof (cases ?run)
      case (Inl e)
      then have "e = RuntimePanic" by (rule for_list_error) (rule row_task_step_error)
      with Inl P show ?thesis by simp
    next
      case (Inr st')
      let ?i = "nat (rows a - 1)"
      have i: "?i < nat (rows a)" "int ?i = rows a - 1" using pos by simp_all
      have "par_shape ?n a b ?st0" using False pos by (simp add: par_shape_def)
      from run_shape [OF this Inr] i(1)
      have sh: "par_shape ?n a b st'"
        and "min (cols b) (next_col ?st0 ! ?i + int (count_list (sched @ wait_all a b) ?i))
               \<le> next_col st' ! ?i"
        by simp_all
      moreover have "count_list (wait_all a b) ?i = nat (cols b)"
        using i(1) by (simp add: wait_all_def count_list_wait)
      ultimately have "cols b \<le> next_col st' ! ?i" using i(1) pos by simp
      then have "0 < next_col st' ! ?i" using pos by simp
      moreover from sh have "\<forall>i < nat (rows a). 0 < next_col st' ! i \<longrightarrow>
          cols b * int i + next_col st' ! i - 1 < ?n"
        unfolding par_shape_def by blast
      ultimately have "cols b * int ?i + next_col st' ! ?i - 1 < ?n" using i(1) by blast
      with \<open>cols b \<le> next_col st' ! ?i\<close> have "cols b * (rows a - 1) + cols b - 1 < ?n"
        using i(2) by simp
      moreover have "cols b * (rows a - 1) + cols b - 1 = rows a * cols b - 1"
        by (simp add: algebra_simps)
      ultimately show ?thesis using n by simp
    qed
  qed
qed

lemma ParallelProduct_Product:
  assumes a: "valid a" and b: "valid b"
  shows "ParallelProduct fadd fmul sched a b = Product fadd fmul a b"
proof (cases "cols a = rows b")
  case False
  then show ?thesis by (simp add: ParallelProduct_def Product_def)
next
  case ab: True
  show ?thesis
  proof (cases "rows a * cols b < 2 ^ 63")
    case big: False
    then have "2 ^ 63 \<le> rows a * cols b" by simp
    from ParallelProduct_overflow [OF a b ab this] Product_overflow [OF a b ab this]
    show ?thesis by simp
  next
    case fit: True
    show ?thesis
    proof -
  let ?c0 = "\<lparr>rows = rows a, cols = cols b, data = replicate (nat (rows a * cols b)) 0\<rparr>"
  let ?st0 = "\<lparr>out = ?c0, next_col = replicate (nat (rows a)) 0\<rparr>"
  have ra: "0 \<le> rows a" and cb: "0 \<le> cols b" using a b by (simp_all add: valid_def)
  have new: "New (rows a) (cols b) = Inr ?c0" using ra cb fit by (rule New_nonneg)
  have inv0: "par_inv fadd fmul a b ?st0" using ra cb by (auto simp: par_inv_def)
  from run_inv [OF a b ab inv0, of sched]
  obtain st1 where st1: "for_list (row_task_step fadd fmul a b) sched ?st0 = Inr st1"
    "par_inv fadd fmul a b st1" by blast
  from run_wait [OF a b ab st1(2), of "nat (rows a)"]
  obtain st2 where st2: "for_list (row_task_step fadd fmul a b) (wait_all a b) st1 = Inr st2"
    "par_inv fadd fmul a b st2" "\<forall>i < nat (rows a). next_col st2 ! i = cols b"
    by (auto simp: wait_all_def)
  have par: "ParallelProduct fadd fmul sched a b = Inr (out st2)"
    using ab new st1(1) st2(1) by (simp add: ParallelProduct_def for_list_append)
  from Product_cells [OF a b ab fit, of fadd fmul]
  obtain c where c: "Product fadd fmul a b = Inr c" "rows c = rows a" "cols c = cols b"
    "int (length (data c)) = rows a * cols b"
    "\<forall>i j. 0 \<le> i \<and> i < rows a \<and> 0 \<le> j \<and> j < cols b \<longrightarrow> cell c i j = dot fadd fmul a b i j"
    by blast
  have vc: "valid c" using c(2-4) ra cb by (simp add: valid_def)
  have vo: "valid (out st2)" "rows (out st2) = rows c" "cols (out st2) = cols c"
    using st2(2) c(2,3) ra cb by (simp_all add: par_inv_def valid_def)
  have "cell (out st2) i j = cell c i j"
    if ij: "0 \<le> i \<and> i < rows (out st2) \<and> 0 \<le> j \<and> j < cols (out st2)" for i j
  proof -
    from ij vo c(2,3) have r: "nat i < nat (rows a)" "int (nat i) = i" "0 \<le> j" "j < cols b"
      by simp_all
    have "next_col st2 ! nat i = cols b" using st2(3) r(1) by simp
    then have "j < next_col st2 ! nat i" using r(4) by simp
    from par_inv_cell [OF st2(2) r(1) r(3) this]
    have "cell (out st2) i j = dot fadd fmul a b i j" using r(2) by simp
    moreover have "cell c i j = dot fadd fmul a b i j" using c(5) ij vo c(2,3) by simp
    ultimately show ?thesis by simp
  qed
  then have "out st2 = c" by (intro matrix_eq_cells [OF vo(1) vc vo(2,3)]) simp
  with par c(1) show ?thesis by simp
    qed
  qed
qed

subsection \<open>What the operations return\<close>

lemma sized_valid: "sized m \<Longrightarrow> valid m"
  by (simp add: sized_def)

lemma sized_fit: "sized m \<Longrightarrow> rows m * cols m < 2 ^ 63"
  by (simp add: sized_def)

lemma New_returns_sized:
  "0 \<le> r \<Longrightarrow> 0 \<le> c \<Longrightarrow> r * c < 2 ^ 63 \<Longrightarrow> New r c = Inr m \<Longrightarrow> sized m"
  using New_nonneg [of r c] by (auto simp: sized_def valid_def)

lemma FromSlice_returns_sized:
  assumes "0 \<le> r" "0 \<le> c" "r * c < 2 ^ 63" "FromSlice r c d = Inr m"
  shows "sized m"
proof -
  have w: "mul64 r c = r * c" using assms(1-3) by (simp add: mul64_id)
  show ?thesis
  proof (cases "int (length d) = r * c")
    case True
    then have "int (length d) = mul64 r c" using w by simp
    from FromSlice_result [OF this] assms True show ?thesis by (auto simp: sized_def valid_def)
  next
    case False
    with assms(4) w show ?thesis by (simp add: FromSlice_def)
  qed
qed

lemma FromFunc_returns_sized:
  "0 \<le> r \<Longrightarrow> 0 \<le> c \<Longrightarrow> r * c < 2 ^ 63 \<Longrightarrow> FromFunc r c g = Inr m \<Longrightarrow> sized m"
  using FromFunc_cells [of r c g] by (auto simp: sized_def)

lemma Clone_returns_sized: "sized m \<Longrightarrow> Clone m = Inr m' \<Longrightarrow> sized m'"
  using Clone_result [of m] by (simp add: sized_def)

lemma Set_returns_sized:
  assumes "sized m" "Set m i j x = Inr m'"
  shows "sized m'"
proof (cases "0 \<le> i \<and> i < rows m \<and> 0 \<le> j \<and> j < cols m")
  case True
  then show ?thesis using Set_valid [of m i j x] assms by (auto simp: sized_def)
next
  case False
  then have "Set m i j x = Inl (IndexOutOfRange i j)" by (auto simp: Set_def checkPos_def)
  with assms(2) show ?thesis by simp
qed

lemma Map_returns_sized:
  "sized m \<Longrightarrow> Map f m = Inr m' \<Longrightarrow> sized m'"
  using Map_result [of m f] by (auto simp: sized_def valid_def)

lemma ConcatenateCols_valid:
  assumes ne: "ms \<noteq> []" and v: "\<And>m. m \<in> set ms \<Longrightarrow> valid m"
    and rs: "\<And>m. m \<in> set ms \<Longrightarrow> rows m = r"
  shows "valid \<lparr>rows = r, cols = sum_list (map cols ms),
           data = concat (map (\<lambda>i. concat (map (\<lambda>m. row m (int i)) ms)) [0..<nat r])\<rparr>"
proof -
  let ?c = "sum_list (map cols ms)"
  let ?g = "\<lambda>i. concat (map (\<lambda>m. row m (int i)) ms)"
  have "valid (hd ms)" "rows (hd ms) = r" using ne v rs by simp_all
  then have r: "0 \<le> r" by (simp add: valid_def)
  have c: "0 \<le> ?c" by (rule sum_cols_nonneg) (use v in \<open>simp add: valid_def\<close>)
  have "length (?g i) = nat ?c" if "i < nat r" for i
    using v rs that by (rule length_row_segments)
  then have "length (concat (map ?g [0..<nat r])) = nat r * nat ?c"
    by (rule length_concat_segments)
  moreover have "int (nat r * nat ?c) = r * ?c" using r c by simp
  ultimately show ?thesis using r c by (simp add: valid_def)
qed

lemma ConcatenateCols_returns_sized:
  assumes s: "\<And>m. m \<in> set ms \<Longrightarrow> sized m"
    and fitc: "sum_list (map cols ms) < 2 ^ 63"
    and fit: "rows (hd ms) * sum_list (map cols ms) < 2 ^ 63"
    and res: "ConcatenateCols ms = Inr m'"
  shows "sized m'"
proof -
  have v: "\<And>m. m \<in> set ms \<Longrightarrow> valid m" using s by (simp add: sized_def)
  have ne: "ms \<noteq> []" using res by (auto simp: ConcatenateCols_def)
  then obtain m0 ms' where split: "ms = m0 # ms'" by (cases ms) auto
  define r where "r = rows m0"
  have fit': "r * sum_list (map cols ms) < 2 ^ 63" using fit unfolding split r_def by simp
  show ?thesis
  proof (cases "\<exists>m \<in> set ms. rows m \<noteq> r")
    case True
    from count_cols_mismatch [OF this, of 0]
    have "ConcatenateCols ms = Inl (DimensionMismatch [])"
      unfolding split r_def by (simp add: ConcatenateCols_def Rows_def)
    with res show ?thesis by simp
  next
    case False
    then have rs: "\<And>m. m \<in> set ms \<Longrightarrow> rows m = r" by blast
    from ConcatenateCols_result [OF ne v rs fitc fit'] ConcatenateCols_valid [OF ne v rs] res fit'
    show ?thesis by (simp add: comp_def sized_def)
  qed
qed

lemma count_rows_mismatch:
  "\<exists>m \<in> set ms. cols m \<noteq> c \<Longrightarrow>
   for_list (\<lambda>m r. if c \<noteq> Cols m then Inl (DimensionMismatch [])
                  else Inr (add64 r (Rows m))) ms r
     = Inl (DimensionMismatch [])"
proof (induction ms arbitrary: r)
  case Nil
  then show ?case by simp
next
  case (Cons m ms)
  show ?case
  proof (cases "cols m = c")
    case True
    with Cons.prems have "\<exists>m \<in> set ms. cols m \<noteq> c" by auto
    from Cons.IH [OF this] True show ?thesis by (simp add: Cols_def)
  next
    case False
    then show ?thesis by (auto simp: Cols_def)
  qed
qed

lemma ConcatenateRows_returns_sized:
  assumes s: "\<And>m. m \<in> set ms \<Longrightarrow> sized m"
    and fitr: "sum_list (map rows ms) < 2 ^ 63"
    and fit: "sum_list (map rows ms) * cols (hd ms) < 2 ^ 63"
    and res: "ConcatenateRows ms = Inr m'"
  shows "sized m'"
proof -
  have v: "\<And>m. m \<in> set ms \<Longrightarrow> valid m" using s by (simp add: sized_def)
  have ne: "ms \<noteq> []" using res by (auto simp: ConcatenateRows_def)
  then obtain m0 ms' where split: "ms = m0 # ms'" by (cases ms) auto
  define c where "c = cols m0"
  have fit': "sum_list (map rows ms) * c < 2 ^ 63" using fit unfolding split c_def by simp
  show ?thesis
  proof (cases "\<exists>m \<in> set ms. cols m \<noteq> c")
    case True
    from count_rows_mismatch [OF this, of 0]
    have "ConcatenateRows ms = Inl (DimensionMismatch [])"
      unfolding split c_def by (simp add: ConcatenateRows_def Cols_def)
    with res show ?thesis by simp
  next
    case False
    then have cs: "\<And>m. m \<in> set ms \<Longrightarrow> cols m = c" by blast
    from ConcatenateRows_valid [OF ne v cs fitr fit'] res fit'
    show ?thesis by (simp add: sized_def)
  qed
qed

lemma SliceCols_returns_sized:
  assumes "sized m" "SliceCols m f t = Inr m'"
  shows "sized m'"
proof (cases "f < 0 \<or> t > cols m \<or> t < f")
  case True
  then have "SliceCols m f t = Inl InvalidRange" by (auto simp: SliceCols_def)
  with assms(2) show ?thesis by simp
next
  case False
  then have ft: "0 \<le> f" "f \<le> t" "t \<le> cols m" by auto
  have v: "valid m" and fit: "rows m * cols m < 2 ^ 63" using assms(1) by (simp_all add: sized_def)
  from SliceCols_valid [OF v ft] assms(2)
  have m': "valid m'" "rows m' = rows m" "cols m' = t - f" by auto
  have "0 \<le> rows m" using v by (simp add: valid_def)
  then have "rows m * (t - f) \<le> rows m * cols m" using ft by (intro mult_left_mono) simp_all
  then show ?thesis using m' fit by (simp add: sized_def)
qed

lemma SliceRows_returns_sized:
  assumes "sized m" "SliceRows m f t = Inr m'"
  shows "sized m'"
proof (cases "f < 0 \<or> t > rows m \<or> t < f")
  case True
  then have "SliceRows m f t = Inl InvalidRange" by (auto simp: SliceRows_def)
  with assms(2) show ?thesis by simp
next
  case False
  then have ft: "0 \<le> f" "f \<le> t" "t \<le> rows m" by auto
  have v: "valid m" and fit: "rows m * cols m < 2 ^ 63" using assms(1) by (simp_all add: sized_def)
  from SliceRows_valid [OF v ft] assms(2)
  have m': "valid m'" "rows m' = t - f" "cols m' = cols m" by auto
  have "0 \<le> cols m" using v by (simp add: valid_def)
  then have "(t - f) * cols m \<le> rows m * cols m" using ft by (intro mult_right_mono) simp_all
  then show ?thesis using m' fit by (simp add: sized_def)
qed

lemma FilterRows_returns_sized:
  assumes "sized m" "FilterRows m keep = Inr m'"
  shows "sized m'"
proof -
  have v: "valid m" and fit: "rows m * cols m < 2 ^ 63" using assms(1) by (simp_all add: sized_def)
  have rc: "0 \<le> rows m" "0 \<le> cols m" using v by (simp_all add: valid_def)
  have "length (kept m keep) \<le> nat (rows m)"
    using length_filter_le [of keep "map int [0..<nat (rows m)]"] by (simp add: kept_def)
  then have "int (length (kept m keep)) \<le> rows m" using rc by simp
  then have "int (length (kept m keep)) * cols m \<le> rows m * cols m"
    using rc by (intro mult_right_mono) simp_all
  then show ?thesis
    using FilterRows_result [OF v, of keep] FilterRows_valid [OF v, of keep] assms(2) fit
    by (auto simp: sized_def)
qed

lemma T_returns_sized:
  "sized m \<Longrightarrow> T m = Inr m' \<Longrightarrow> sized m'"
  using T_cells [of m] by (auto simp: sized_def mult.commute)

lemma Product_returns_sized:
  assumes "valid a" "valid b" "rows a * cols b < 2 ^ 63" "Product fadd fmul a b = Inr m'"
  shows "sized m'"
proof (cases "cols a = rows b")
  case True
  from Product_cells [OF assms(1,2) True assms(3), of fadd fmul] assms
  show ?thesis by (auto simp: sized_def valid_def)
next
  case False
  with assms(4) show ?thesis by (simp add: Product_def)
qed

lemma BlasProduct_returns_sized:
  assumes "valid a" "valid b" "rows a * cols b < 2 ^ 63" "BlasProduct gemm a b = Inr m'"
  shows "sized m'"
proof -
  have rc: "0 \<le> rows a" "0 \<le> cols b" using assms(1,2) by (simp_all add: valid_def)
  let ?c = "\<lparr>rows = rows a, cols = cols b, data = replicate (nat (rows a * cols b)) 0\<rparr>"
  have new: "New (Rows a) (Cols b) = Inr ?c"
    using New_nonneg [OF rc assms(3)] by (simp add: Rows_def Cols_def)
  show ?thesis
  proof (cases "gemm NoTrans NoTrans float_one (generalFromMat a) (generalFromMat b) 0 (generalFromMat ?c)")
    case (Inl e)
    with new assms(4) show ?thesis by (simp add: BlasProduct_def)
  next
    case (Inr d)
    with new assms(4) have "m' = ?c\<lparr>data := copy (data ?c) d\<rparr>" by (simp add: BlasProduct_def)
    then show ?thesis using rc assms(3) by (simp add: sized_def valid_def)
  qed
qed

lemma dotApply_returns_sized:
  assumes "sized a" "sized b" "dotApply f a b = Inr m'"
  shows "sized m'"
proof (cases "rows a = rows b \<and> cols a = cols b")
  case True
  have v: "valid a" "valid b" and fit: "rows a * cols a < 2 ^ 63"
    using assms(1,2) by (simp_all add: sized_def)
  from True dotApply_cells [OF v _ _ fit, of f] assms(3) fit show ?thesis
    by (auto simp: sized_def)
next
  case False
  then have "dotApply f a b = Inl (DimensionMismatch [rows a, cols a, rows b, cols b])"
    by (auto simp: dotApply_def)
  with assms(3) show ?thesis by simp
qed

lemma produced_sized: "produced m \<Longrightarrow> sized m"
proof (induction rule: produced.induct)
  case (by_New r c m)
  then show ?case by (rule New_returns_sized)
next
  case (by_FromSlice r c d m)
  then show ?case by (rule FromSlice_returns_sized)
next
  case (by_FromFunc r c g m)
  then show ?case by (rule FromFunc_returns_sized)
next
  case (by_Clone m m')
  then show ?case using Clone_returns_sized by blast
next
  case (by_Set m i j x m')
  then show ?case using Set_returns_sized by blast
next
  case (by_Map m f m')
  then show ?case using Map_returns_sized by blast
next
  case (by_Scale m fmul x m')
  then show ?case using Map_returns_sized unfolding Scale_def by blast
next
  case (by_AddScalar m fadd x m')
  then show ?case using Map_returns_sized unfolding AddScalar_def by blast
next
  case (by_ConcatenateCols ms m')
  from by_ConcatenateCols.IH by_ConcatenateCols.hyps(2-4) show ?case
    by (rule ConcatenateCols_returns_sized)
next
  case (by_ConcatenateRows ms m')
  from by_ConcatenateRows.IH by_ConcatenateRows.hyps(2-4) show ?case
    by (rule ConcatenateRows_returns_sized)
next
  case (by_SliceCols m "from" to m')
  then show ?case using SliceCols_returns_sized by blast
next
  case (by_SliceRows m "from" to m')
  then show ?case using SliceRows_returns_sized by blast
next
  case (by_FilterRows m keep m')
  then show ?case using FilterRows_returns_sized by blast
next
  case (by_T m m')
  then show ?case using T_returns_sized by blast
next
  case (by_Product a b fadd fmul m')
  then show ?case using Product_returns_sized sized_valid by blast
next
  case (by_ParallelProduct a b fadd fmul sched m')
  then have "Product fadd fmul a b = Inr m'"
    using ParallelProduct_Product [of a b fadd fmul sched] by (simp add: sized_valid)
  with by_ParallelProduct show ?case using Product_returns_sized sized_valid by blast
next
  case (by_BlasProduct a b gemm m')
  then show ?case using BlasProduct_returns_sized sized_valid by blast
next
  case (by_Dot a b fmul m')
  then show ?case using dotApply_returns_sized unfolding Dot_def by blast
next
  case (by_Plus a b fadd m')
  then show ?case using dotApply_returns_sized unfolding Plus_def by blast
next
  case (by_Minus a b fsub m')
  then show ?case using dotApply_returns_sized unfolding Minus_def by blast
qed

subsection \<open>Operations on shared buffers\<close>

lemma Clone_ref_frame:
  assumes "Clone_ref h m = Inr (h', r)"
  shows "buf r = length h \<and> length h' = Suc (length h) \<and> take (length h) h' = h
       \<and> ref_rows r = ref_rows m \<and> ref_cols r = ref_cols m"
  using assms
  by (auto simp: Clone_ref_def New_ref_def make_len_def split: if_splits)

text \<open>\<open>Set\<close> and \<open>Map\<close>, hence \<open>Scale\<close> and \<open>AddScalar\<close>, write to the buffer they have
  allocated: every buffer of the store they were called in is left as it was.\<close>

lemma Set_ref_frame:
  assumes "Set_ref h m i j x = Inr (h', r)"
  shows "buf r = length h \<and> take (length h) h' = h"
proof -
  from assms obtain h1 where c: "Clone_ref h m = Inr (h1, r)" and s: "set_ref h1 r i j x = Inr h'"
    by (auto simp: Set_ref_def checkPos_ref_def seq_def split: if_splits sum.splits)
  from Clone_ref_frame [OF c] have r: "buf r = length h" "take (length h) h1 = h" by simp_all
  from s obtain d where "h' = h1[buf r := d]"
    by (auto simp: set_ref_def seq_def split: sum.splits)
  with r show ?thesis by simp
qed

lemma Map_ref_frame:
  assumes "Map_ref f h m = Inr (h', r)"
  shows "buf r = length h \<and> take (length h) h' = h"
proof -
  from assms obtain h1 where c: "Clone_ref h m = Inr (h1, r)"
    and l: "for_range (int (length (h1 ! buf r)))
            (\<lambda>i h. seq (index (h ! buf r) i) (\<lambda>v.
                    seq (assign (h ! buf r) i (f v)) (\<lambda>d. Inr (h[buf r := d])))) h1 = Inr h'"
    by (auto simp: Map_ref_def seq_def split: sum.splits)
  from Clone_ref_frame [OF c] have r: "buf r = length h" "length h1 = Suc (length h)"
    "take (length h) h1 = h" by simp_all
  let ?n = "length (h1 ! buf r)"
  let ?P = "\<lambda>k::int. \<lambda>hh. length hh = Suc (length h) \<and> take (length h) hh = h
              \<and> length (hh ! buf r) = ?n"
  have "\<exists>hh. for_range (int ?n)
            (\<lambda>i h. seq (index (h ! buf r) i) (\<lambda>v.
                    seq (assign (h ! buf r) i (f v)) (\<lambda>d. Inr (h[buf r := d])))) h1 = Inr hh
          \<and> ?P (int ?n) hh"
  proof (rule for_range_invariant [where P = ?P])
    show "0 \<le> int ?n" by simp
    show "?P 0 h1" using r by simp
  next
    fix k hh assume k: "0 \<le> k" "k < int ?n" and hh: "?P k hh"
    then have ix: "index (hh ! buf r) k = Inr (hh ! buf r ! nat k)" by (simp add: index_def)
    have st: "assign (hh ! buf r) k v = Inr ((hh ! buf r)[nat k := v])" for v
      using k hh by (simp add: assign_def)
    have "?P (k + 1) (hh[buf r := (hh ! buf r)[nat k := f (hh ! buf r ! nat k)]])"
      using hh r(1) by simp
    then show "\<exists>t'. seq (index (hh ! buf r) k) (\<lambda>v.
                    seq (assign (hh ! buf r) k (f v)) (\<lambda>d. Inr (hh[buf r := d]))) = Inr t'
                \<and> ?P (k + 1) t'"
      unfolding ix seq_Inr st by simp
  qed
  with l r(1) show ?thesis by simp
qed

section \<open>The claims\<close>

subsection \<open>The contract of the sequential product\<close>




subsection \<open>The parallel product\<close>

text \<open>
  Claim C2. For matrices \<open>a\<close> and \<open>b\<close> of the data model, and in particular for conformant ones,
  the parallel product returns the matrix that the sequential product returns, whatever the
  order in which the goroutines of the rows take their steps: every cell is accumulated by the
  same inner loop, and the goroutines write different cells. Where the sequential product
  panics, on dimensions that do not conform or on a result whose size wraps around, the
  parallel product panics with an error of the same kind.
\<close>

theorem ParallelProduct_eq_Product:
  assumes "valid a" and "valid b"
  shows "ParallelProduct fadd fmul sched a b = Product fadd fmul a b"
  using assms by (rule ParallelProduct_Product)

text \<open>The product of the \<open>2 \<times> 3\<close> and the \<open>3 \<times> 2\<close> matrix under a schedule that alternates
  between the two rows and names one goroutine more often than it has steps.\<close>

theorem ParallelProduct_eq_Product_witness:
  "valid A23 \<and> valid B32
   \<and> ParallelProduct (+) (*) [1, 0, 0, 1, 1, 1] A23 B32 = Product (+) (*) A23 B32
   \<and> Product (+) (*) A23 B32 = Inr \<lparr>rows = 2, cols = 2, data = [4, 5, 10, 11]\<rparr>"
proof -
  have v: "valid A23" "valid B32" by (simp_all add: valid_def A23_def B32_def)
  have "Product (+) (*) A23 B32 = Inr \<lparr>rows = 2, cols = 2, data = [4, 5, 10, 11]\<rparr>"
    by code_simp
  with ParallelProduct_eq_Product [OF v, of "(+)" "(*)" "[1, 0, 0, 1, 1, 1]"] v
  show ?thesis by simp
qed

subsection \<open>The delegated product\<close>

text \<open>
  Claim C3 says that the delegated product fails with \<open>DimensionMismatch\<close> whenever
  \<open>a.cols \<noteq> b.rows\<close>, as the other two products do. The code of \<open>BlasProduct\<close> does not
  compare \<open>a.cols\<close> with \<open>b.rows\<close>: for a \<open>2 \<times> 3\<close> and a \<open>2 \<times> 2\<close> matrix it allocates the
  \<open>2 \<times> 2\<close> result and calls the external routine, and whatever that routine does is the
  outcome. With a routine that returns without a panic \<open>BlasProduct\<close> returns a matrix, where
  \<open>Product\<close> panics with the four dimensions. The same holds for a \<open>2 \<times> 3\<close> and a
  \<open>5 \<times> 2\<close> matrix, where the buffer of \<open>b\<close> is long enough for a routine that reads three
  rows of it.
\<close>

theorem BlasProduct_unchecked:
  "BlasProduct gemm A23 B22 =
     seq (gemm NoTrans NoTrans float_one
            \<lparr>gRows = 2, gCols = 3, gStride = 3, gData = [1, 2, 3, 4, 5, 6]\<rparr>
            \<lparr>gRows = 2, gCols = 2, gStride = 2, gData = [1, 0, 0, 1]\<rparr> 0
            \<lparr>gRows = 2, gCols = 2, gStride = 2, gData = [0, 0, 0, 0]\<rparr>)
       (\<lambda>d. Inr \<lparr>rows = 2, cols = 2, data = copy [0, 0, 0, 0] d\<rparr>)
   \<and> BlasProduct (\<lambda>tA tB alpha x y beta z. Inr (gData z)) A23 B22
        = Inr \<lparr>rows = 2, cols = 2, data = [0, 0, 0, 0]\<rparr>
   \<and> Product fadd fmul A23 B22 = Inl (DimensionMismatch [2, 3, 2, 2])
   \<and> BlasProduct gemm A23 B52 =
     seq (gemm NoTrans NoTrans float_one
            \<lparr>gRows = 2, gCols = 3, gStride = 3, gData = [1, 2, 3, 4, 5, 6]\<rparr>
            \<lparr>gRows = 5, gCols = 2, gStride = 2, gData = [1, 0, 0, 1, 1, 1, 2, 0, 0, 2]\<rparr> 0
            \<lparr>gRows = 2, gCols = 2, gStride = 2, gData = [0, 0, 0, 0]\<rparr>)
       (\<lambda>d. Inr \<lparr>rows = 2, cols = 2, data = copy [0, 0, 0, 0] d\<rparr>)
   \<and> BlasProduct (\<lambda>tA tB alpha x y beta z. Inr (gData z)) A23 B52
        = Inr \<lparr>rows = 2, cols = 2, data = [0, 0, 0, 0]\<rparr>
   \<and> Product fadd fmul A23 B52 = Inl (DimensionMismatch [2, 3, 5, 2])"
proof -
  have n: "New 2 2 = Inr \<lparr>rows = 2, cols = 2, data = [0, 0, 0, 0]\<rparr>" by code_simp
  have c: "copy [0, 0, 0, 0] [0, 0, 0, 0] = [0, 0, 0, (0::float64)]" by (simp add: copy_def)
  show ?thesis
    by (simp add: BlasProduct_def Product_def A23_def B22_def B52_def Rows_def Cols_def n c
        generalFromMat_def ToSlice_def)
qed

subsection \<open>Operations that look as if they modified a matrix\<close>

text \<open>
  Claim C4 says that no public operation, \<open>Apply\<close> included, changes a cell of a matrix that
  the caller holds. With the buffers in a store: \<open>Apply\<close> writes the values of its function
  into the buffer of the matrix it is applied to, which is the buffer of the caller's matrix,
  and allocates nothing; after the call the caller's matrix has other cells than before.
  \<open>Set\<close> on the same matrix allocates a buffer, writes there and leaves the caller's buffer
  as it was.
\<close>

theorem Apply_mutates_receiver:
  "deref H1 M22 = \<lparr>rows = 2, cols = 2, data = [1, 2, 3, 4]\<rparr>
   \<and> Apply_ref H1 M22 (\<lambda>i j. 9) = Inr [[9, 9, 9, 9]]
   \<and> deref [[9, 9, 9, 9]] M22 = \<lparr>rows = 2, cols = 2, data = [9, 9, 9, 9]\<rparr>
   \<and> Set_ref H1 M22 0 0 9
        = Inr ([[1, 2, 3, 4], [9, 2, 3, 4]], \<lparr>ref_rows = 2, ref_cols = 2, buf = 1\<rparr>)"
  by code_simp

subsection \<open>Equality\<close>

text \<open>
  Claim C5, the counterexample: \<open>Equals\<close> is not reflexive. The \<open>1 \<times> 1\<close> matrix whose cell is the
  quiet NaN is a matrix of the data model that \<open>Equals\<close> finds different from itself, since
  \<^verbatim>\<open>v != b.data[i]\<close> holds when \<open>v\<close> is a NaN.
\<close>

theorem Equals_reflexive_counterexample: "valid NaN11 \<and> Equals NaN11 NaN11 = Inr False"
  by (simp add: valid_def NaN11_def Equals_def index_def float_eq_def isNaN_def magnitude_def)

text \<open>
  Claim C5, amended. On matrices of the data model \<open>Equals\<close> is symmetric; it is false for
  matrices of differing row or column counts whatever they hold; when the dimensions agree it
  is true exactly when every pair of corresponding cells is equal under the exact floating-point
  comparison; and \<open>Equals m m\<close> is true exactly when no cell of \<open>m\<close> is a NaN, so \<open>Equals\<close> is
  reflexive on the matrices without NaN.
\<close>

theorem Equals_contract:
  assumes "valid a" and "valid b"
  shows "Equals a b = Equals b a
       \<and> (rows a \<noteq> rows b \<or> cols a \<noteq> cols b \<longrightarrow> Equals a b = Inr False)
       \<and> (rows a = rows b \<and> cols a = cols b \<longrightarrow>
            Equals a b = Inr (\<forall>i j. 0 \<le> i \<and> i < rows a \<and> 0 \<le> j \<and> j < cols a \<longrightarrow>
                                float_eq (cell a i j) (cell b i j)))
       \<and> Equals a a = Inr (\<forall>x \<in> set (data a). \<not> isNaN x)"
proof (intro conjI impI)
  show "Equals a b = Equals b a"
  proof (cases "rows a = rows b \<and> cols a = cols b")
    case True
    then have "length (data a) = length (data b)" using assms by (simp add: valid_def)
    then show ?thesis
      using Equals_buffer [OF assms] Equals_buffer [OF assms(2,1)] True
      by (simp add: float_eq_sym)
  next
    case False
    then show ?thesis by (auto simp: Equals_def)
  qed
next
  assume "rows a \<noteq> rows b \<or> cols a \<noteq> cols b"
  then show "Equals a b = Inr False" by (auto simp: Equals_def)
next
  assume d: "rows a = rows b \<and> cols a = cols b"
  then show "Equals a b = Inr (\<forall>i j. 0 \<le> i \<and> i < rows a \<and> 0 \<le> j \<and> j < cols a \<longrightarrow>
                                float_eq (cell a i j) (cell b i j))"
    using Equals_buffer [OF assms] cells_buffer [OF assms, of float_eq] by simp
next
  show "Equals a a = Inr (\<forall>x \<in> set (data a). \<not> isNaN x)"
    using Equals_buffer [OF assms(1,1)] by (simp add: float_eq_refl all_set_conv_all_nth)
qed

text \<open>The \<open>2 \<times> 3\<close> matrix against itself and against the \<open>3 \<times> 2\<close> one.\<close>

theorem Equals_contract_witness:
  "valid A23 \<and> valid B32 \<and> Equals A23 B32 = Equals B32 A23 \<and> Equals A23 B32 = Inr False
   \<and> Equals A23 A23 = Inr True"
proof -
  have v: "valid A23" "valid B32" by (simp_all add: valid_def A23_def B32_def)
  have "\<forall>x \<in> set (data A23). \<not> isNaN x" by (simp add: A23_def isNaN_def magnitude_def)
  moreover have "rows A23 \<noteq> rows B32" by (simp add: A23_def B32_def)
  ultimately have "Equals A23 B32 = Equals B32 A23" "Equals A23 B32 = Inr False"
    "Equals A23 A23 = Inr True"
    using Equals_contract [OF v] by auto
  with v show ?thesis by blast
qed

subsection \<open>The representation invariant\<close>

text \<open>
  Claim C6, the counterexample. \<open>New\<close> accepts the dimensions \<open>-1\<close> and \<open>-1\<close> and returns a matrix
  with one cell; \<open>ConcatenateCols\<close> of that matrix alone returns a matrix with the same
  dimensions and an empty buffer, since its loop over the rows does not run: the length of
  the buffer, \<open>0\<close>, is not \<open>rows * cols = 1\<close>. And \<open>New\<close> with the dimensions \<open>2\<^sup>3\<^sup>2\<close> and
  \<open>2\<^sup>3\<^sup>2\<close>, whose product wraps around to \<open>0\<close>, returns a matrix with these dimensions
  and an empty buffer.
\<close>

theorem representation_invariant_counterexample:
  "New (-1) (-1) = Inr Neg11
   \<and> ConcatenateCols [Neg11] = Inr \<lparr>rows = -1, cols = -1, data = []\<rparr>
   \<and> int (length (data \<lparr>rows = -1, cols = -1, data = []\<rparr>))
        \<noteq> rows \<lparr>rows = -1, cols = -1, data = []\<rparr> * cols \<lparr>rows = -1, cols = -1, data = []\<rparr>
   \<and> New (2 ^ 32) (2 ^ 32) = Inr \<lparr>rows = 2 ^ 32, cols = 2 ^ 32, data = []\<rparr>
   \<and> int (length (data \<lparr>rows = 2 ^ 32, cols = 2 ^ 32, data = []\<rparr>))
        \<noteq> rows \<lparr>rows = 2 ^ 32, cols = 2 ^ 32, data = []\<rparr>
            * cols \<lparr>rows = 2 ^ 32, cols = 2 ^ 32, data = []\<rparr>"
  by (simp add: Neg11_def New_def make_len_def ConcatenateCols_def Rows_def Cols_def
      make_cap_def for_range_def mul64_def add64_def wrap64_def)

text \<open>
  Claim C6, amended. Every matrix that the public operations produce from dimensions that are
  not negative and sizes below \<open>2\<^sup>6\<^sup>3\<close> (the product of the dimensions given to a
  constructor; the summed dimension and the number of cells of a concatenation; the number of
  cells of a product) satisfies the representation invariant: its dimensions are not
  negative, its buffer has exactly \<open>rows * cols\<close> cells, and the cell \<open>(i, j)\<close>, for
  \<open>0 \<le> i < rows\<close> and \<open>0 \<le> j < cols\<close>, is the one at offset \<open>i * cols + j\<close> of the buffer.
  In particular the transpose of such a matrix and what \<open>FilterRows\<close> keeps of it, also when
  it keeps no row, are returned and satisfy the invariant.
\<close>

theorem representation_invariant:
  assumes "produced m"
  shows "valid m
       \<and> (\<forall>i j. 0 \<le> i \<and> i < rows m \<and> 0 \<le> j \<and> j < cols m \<longrightarrow>
             At m i j = Inr (data m ! nat (i * cols m + j)))
       \<and> (\<exists>t. T m = Inr t \<and> produced t \<and> valid t \<and> rows t = cols m \<and> cols t = rows m)
       \<and> (\<exists>s. FilterRows m keep = Inr s \<and> produced s \<and> valid s
              \<and> rows s = int (length (kept m keep)) \<and> cols s = cols m)"
proof (intro conjI allI impI)
  show v: "valid m" using assms by (intro sized_valid produced_sized)
  then have len: "int (length (data m)) = rows m * cols m" by (simp add: valid_def)
  show "At m i j = Inr (data m ! nat (i * cols m + j))"
    if "0 \<le> i \<and> i < rows m \<and> 0 \<le> j \<and> j < cols m" for i j
    using At_cell [OF len, of i j] that by (simp add: cell_def)
  from T_cells [OF v] obtain t where t: "T m = Inr t" "valid t" "rows t = cols m" "cols t = rows m"
    by blast
  moreover have "produced t" using assms t(1) by (rule by_T)
  ultimately show "\<exists>t. T m = Inr t \<and> produced t \<and> valid t \<and> rows t = cols m \<and> cols t = rows m"
    by blast
  let ?s = "\<lparr>rows = int (length (kept m keep)), cols = cols m,
             data = concat (map (row m) (kept m keep))\<rparr>"
  have s: "FilterRows m keep = Inr ?s" using v by (rule FilterRows_result)
  moreover have "produced ?s" using assms s by (rule by_FilterRows)
  moreover have "valid ?s" using v by (rule FilterRows_valid)
  ultimately show "\<exists>s. FilterRows m keep = Inr s \<and> produced s \<and> valid s
              \<and> rows s = int (length (kept m keep)) \<and> cols s = cols m"
    by auto
qed

text \<open>A matrix made by \<open>New\<close> and \<open>Set\<close>, its transpose, and \<open>FilterRows\<close> keeping none of
  its rows.\<close>

theorem representation_invariant_witness:
  "produced Z23 \<and> valid Z23 \<and> At Z23 0 1 = Inr 5
   \<and> T Z23 = Inr Z32 \<and> produced Z32 \<and> valid Z32
   \<and> FilterRows Z23 (\<lambda>i. False) = Inr \<lparr>rows = 0, cols = 3, data = []\<rparr>
   \<and> produced \<lparr>rows = 0, cols = 3, data = []\<rparr> \<and> valid \<lparr>rows = 0, cols = 3, data = []\<rparr>"
proof -
  have n: "New 2 3 = Inr \<lparr>rows = 2, cols = 3, data = [0, 0, 0, 0, 0, 0]\<rparr>" by code_simp
  have s: "Set \<lparr>rows = 2, cols = 3, data = [0, 0, 0, 0, 0, 0]\<rparr> 0 1 5 = Inr Z23" by code_simp
  have t: "T Z23 = Inr Z32" by code_simp
  have f: "FilterRows Z23 (\<lambda>i. False) = Inr \<lparr>rows = 0, cols = 3, data = []\<rparr>" by code_simp
  have "produced \<lparr>rows = 2, cols = 3, data = [0, 0, 0, 0, 0, 0]\<rparr>"
    by (rule by_New [OF _ _ _ n]) simp_all
  then have p: "produced Z23" using s by (rule by_Set)
  have d: "rows Z23 = 2" "cols Z23 = 3" "data Z23 ! 1 = 5" by (simp_all add: Z23_def)
  from representation_invariant [OF p, of "\<lambda>i. False"] t f d
  have "valid Z23" "At Z23 0 1 = Inr 5" "produced Z32" "valid Z32"
    "produced \<lparr>rows = 0, cols = 3, data = []\<rparr>" "valid \<lparr>rows = 0, cols = 3, data = []\<rparr>"
    by auto
  with p t f show ?thesis by simp
qed

subsection \<open>Slicing and concatenating\<close>

text \<open>
  Claim C7. For a matrix \<open>m\<close> of the data model and \<open>0 \<le> k \<le> m.cols\<close>, concatenating the columns
  of \<open>SliceCols m 0 k\<close> and \<open>SliceCols m k m.cols\<close> gives \<open>m\<close> back: the same dimensions and the
  same buffer. Likewise, for \<open>0 \<le> k \<le> m.rows\<close>, with \<open>SliceRows\<close> and \<open>ConcatenateRows\<close>.
  The matrix is a value of the Go type, that is, its dimensions and the length of its buffer
  are \<^verbatim>\<open>int\<close>s (\<open>representable\<close>), as every matrix of a Go program is: the concatenations add
  up the dimensions of the two slices in the arithmetic of \<^verbatim>\<open>int\<close>, and the sums are the
  dimensions of \<open>m\<close>.
\<close>

theorem slice_concat_roundtrip:
  assumes "valid m" and "representable m"
  shows "(0 \<le> k \<and> k \<le> cols m \<longrightarrow>
            seq (SliceCols m 0 k) (\<lambda>l. seq (SliceCols m k (cols m)) (\<lambda>r.
              ConcatenateCols [l, r])) = Inr m)
       \<and> (0 \<le> k \<and> k \<le> rows m \<longrightarrow>
            seq (SliceRows m 0 k) (\<lambda>u. seq (SliceRows m k (rows m)) (\<lambda>d.
              ConcatenateRows [u, d])) = Inr m)"
proof (intro conjI impI)
  assume k: "0 \<le> k \<and> k \<le> cols m"
  have fit: "rows m < 2 ^ 63" "cols m < 2 ^ 63" "rows m * cols m < 2 ^ 63"
    using assms by (simp_all add: representable_def valid_def)
  from assms(1) k obtain l where l: "SliceCols m 0 k = Inr l" "valid l" "rows l = rows m" "cols l = k"
    "\<And>i. 0 \<le> i \<Longrightarrow> i < rows m \<Longrightarrow> row l i = take (nat k) (row m i)"
    using SliceCols_rows [of m 0 k] by auto
  from assms(1) k obtain r where r: "SliceCols m k (cols m) = Inr r" "valid r" "rows r = rows m"
    "cols r = cols m - k"
    "\<And>i. 0 \<le> i \<Longrightarrow> i < rows m \<Longrightarrow> row r i = take (nat (cols m - k)) (drop (nat k) (row m i))"
    using SliceCols_rows [of m k "cols m"] by auto
  have sum: "sum_list (map cols [l, r]) = cols m" using l(4) r(4) by simp
  have e1: "ConcatenateCols [l, r] = Inr \<lparr>rows = rows m, cols = sum_list (map cols [l, r]),
          data = concat (map (\<lambda>i. concat (map (\<lambda>m. row m i) [l, r])) (map int [0..<nat (rows m)]))\<rparr>"
  proof (rule ConcatenateCols_result)
    show "sum_list (map cols [l, r]) < 2 ^ 63" "rows m * sum_list (map cols [l, r]) < 2 ^ 63"
      unfolding sum by (rule fit)+
  qed (use l(2,3) r(2,3) in auto)
  have "concat (map (\<lambda>m. row m i) [l, r]) = row m i" if "i \<in> set (map int [0..<nat (rows m)])" for i
  proof -
    from that have i: "0 \<le> i" "i < rows m" by auto
    then have "length (row m i) = nat (cols m)"
      using row_length [OF assms(1), of "nat i"] by simp
    then have "take (nat (cols m - k)) (drop (nat k) (row m i)) = drop (nat k) (row m i)"
      using k by simp
    then show ?thesis using l(5) [OF i] r(5) [OF i] by simp
  qed
  then have e2: "map (\<lambda>i. concat (map (\<lambda>m. row m i) [l, r])) (map int [0..<nat (rows m)])
      = map (row m) (map int [0..<nat (rows m)])"
    by (intro map_cong) simp_all
  have "ConcatenateCols [l, r] = Inr \<lparr>rows = rows m, cols = cols m, data = data m\<rparr>"
    unfolding e1 e2 data_rows [OF assms(1)] using l(4) r(4) by simp
  then show "seq (SliceCols m 0 k) (\<lambda>l. seq (SliceCols m k (cols m)) (\<lambda>r.
              ConcatenateCols [l, r])) = Inr m"
    using l(1) r(1) by simp
next
  assume k: "0 \<le> k \<and> k \<le> rows m"
  have c: "0 \<le> cols m" and r: "0 \<le> rows m" and len: "int (length (data m)) = rows m * cols m"
    using assms(1) by (simp_all add: valid_def)
  have fit: "rows m < 2 ^ 63" "rows m * cols m < 2 ^ 63"
    using assms by (simp_all add: representable_def valid_def)
  let ?u = "\<lparr>rows = k - 0, cols = cols m,
             data = take (nat ((k - 0) * cols m)) (drop (nat (0 * cols m)) (data m))\<rparr>"
  let ?d = "\<lparr>rows = rows m - k, cols = cols m,
             data = take (nat ((rows m - k) * cols m)) (drop (nat (k * cols m)) (data m))\<rparr>"
  have u: "SliceRows m 0 k = Inr ?u" using k by (intro SliceRows_result [OF assms(1)]) simp_all
  have d: "SliceRows m k (rows m) = Inr ?d" using k by (intro SliceRows_result [OF assms(1)]) simp_all
  have "0 \<le> (rows ?u + rows ?d) * cols ?u" using c r by simp
  then have cat: "ConcatenateRows [?u, ?d]
      = Inr \<lparr>rows = rows ?u + rows ?d, cols = cols ?u, data = data ?u @ data ?d\<rparr>"
    using k fit by (intro ConcatenateRows_pair) simp_all
  from assms(1) obtain r' c' where rc: "rows m = int r'" "cols m = int c'" "length (data m) = r' * c'"
    by (rule valid_nat)
  from k obtain k' where k': "k = int k'" by (metis nonneg_int_cases)
  with k rc have le: "k' \<le> r'" by simp
  have n1: "nat (k * cols m) = k' * c'" unfolding k' rc by (simp flip: of_nat_mult)
  have "(rows m - k) * cols m = int ((r' - k') * c')"
    unfolding k' rc using le by (simp add: of_nat_diff)
  then have n2: "nat ((rows m - k) * cols m) = (r' - k') * c'" by (simp only: nat_int)
  have "length (drop (nat (k * cols m)) (data m)) = nat ((rows m - k) * cols m)"
    unfolding n1 n2 using rc(3) by (simp add: diff_mult_distrib)
  then have "take (nat ((rows m - k) * cols m)) (drop (nat (k * cols m)) (data m))
      = drop (nat (k * cols m)) (data m)" by simp
  then have "data ?u @ data ?d = data m" by simp
  with cat have "ConcatenateRows [?u, ?d] = Inr \<lparr>rows = rows m, cols = cols m, data = data m\<rparr>"
    by simp
  then show "seq (SliceRows m 0 k) (\<lambda>u. seq (SliceRows m k (rows m)) (\<lambda>d.
              ConcatenateRows [u, d])) = Inr m"
    unfolding u d by simp
qed

text \<open>The \<open>2 \<times> 3\<close> matrix cut after its first column, and after its first row.\<close>

theorem slice_concat_roundtrip_witness:
  "valid A23 \<and> representable A23
   \<and> seq (SliceCols A23 0 1) (\<lambda>l. seq (SliceCols A23 1 (cols A23)) (\<lambda>r.
        ConcatenateCols [l, r])) = Inr A23
   \<and> seq (SliceRows A23 0 1) (\<lambda>u. seq (SliceRows A23 1 (rows A23)) (\<lambda>d.
        ConcatenateRows [u, d])) = Inr A23"
proof -
  have v: "valid A23" "representable A23" by (simp_all add: valid_def representable_def A23_def)
  have d: "(0::int) \<le> 1 \<and> 1 \<le> cols A23" "(0::int) \<le> 1 \<and> 1 \<le> rows A23" by (simp_all add: A23_def)
  show ?thesis using slice_concat_roundtrip [OF v, of 1] v d by blast
qed

subsection \<open>Slicing\<close>

text \<open>
  Claim C8. For a matrix of the data model and all \<open>from\<close> and \<open>to\<close>, \<open>SliceCols\<close> and
  \<open>SliceRows\<close> fail, with \<open>InvalidRange\<close>, exactly when \<open>from < 0\<close>, \<open>to\<close> exceeds the sliced
  dimension or \<open>to < from\<close>; otherwise the result is a matrix of the data model of dimensions
  \<open>(rows, to - from)\<close>, respectively \<open>(to - from, cols)\<close>. With \<open>from = to\<close> that is a matrix
  with an empty dimension.
\<close>

theorem Slice_contract:
  assumes "valid m"
  shows "(from < 0 \<or> to > cols m \<or> to < from \<longrightarrow> SliceCols m from to = Inl InvalidRange)
       \<and> (\<not> (from < 0 \<or> to > cols m \<or> to < from) \<longrightarrow>
            (\<exists>s. SliceCols m from to = Inr s \<and> valid s \<and> rows s = rows m \<and> cols s = to - from))
       \<and> (from < 0 \<or> to > rows m \<or> to < from \<longrightarrow> SliceRows m from to = Inl InvalidRange)
       \<and> (\<not> (from < 0 \<or> to > rows m \<or> to < from) \<longrightarrow>
            (\<exists>s. SliceRows m from to = Inr s \<and> valid s \<and> rows s = to - from \<and> cols s = cols m))"
proof (intro conjI impI)
  assume "from < 0 \<or> to > cols m \<or> to < from"
  then show "SliceCols m from to = Inl InvalidRange" by (auto simp: SliceCols_def)
next
  assume "\<not> (from < 0 \<or> to > cols m \<or> to < from)"
  then have "0 \<le> from" "from \<le> to" "to \<le> cols m" by auto
  then show "\<exists>s. SliceCols m from to = Inr s \<and> valid s \<and> rows s = rows m \<and> cols s = to - from"
    by (rule SliceCols_valid [OF assms])
next
  assume "from < 0 \<or> to > rows m \<or> to < from"
  then show "SliceRows m from to = Inl InvalidRange" by (auto simp: SliceRows_def)
next
  assume "\<not> (from < 0 \<or> to > rows m \<or> to < from)"
  then have "0 \<le> from" "from \<le> to" "to \<le> rows m" by auto
  then show "\<exists>s. SliceRows m from to = Inr s \<and> valid s \<and> rows s = to - from \<and> cols s = cols m"
    by (rule SliceRows_valid [OF assms])
qed

text \<open>Slices of the \<open>2 \<times> 3\<close> matrix: two bad ranges, an empty range of columns and one row.\<close>

theorem Slice_contract_witness:
  "valid A23
   \<and> SliceCols A23 2 1 = Inl InvalidRange \<and> SliceRows A23 0 3 = Inl InvalidRange
   \<and> (\<exists>s. SliceCols A23 3 3 = Inr s \<and> valid s \<and> rows s = 2 \<and> cols s = 0)
   \<and> (\<exists>s. SliceRows A23 1 2 = Inr s \<and> valid s \<and> rows s = 1 \<and> cols s = 3)"
proof -
  have v: "valid A23" by (simp add: valid_def A23_def)
  have d: "rows A23 = 2" "cols A23 = 3" by (simp_all add: A23_def)
  show ?thesis
    using Slice_contract [OF v, of 2 1] Slice_contract [OF v, of 0 3]
      Slice_contract [OF v, of 3 3] Slice_contract [OF v, of 1 2] v d
    by simp
qed

subsection \<open>Concatenation of columns\<close>




subsection \<open>The constructor\<close>



end
